theory Spec2Isabelle
  imports Main "HOL-Library.Log_Nat"
begin

section \<open>Data model of \<^verbatim>\<open>src/islands/TodoListView.tsx\<close>\<close>

text \<open>
  Modelled from the spec: the types \<^verbatim>\<open>TodoListItem\<close> and \<^verbatim>\<open>TodoList\<close> are imported
  from \<^verbatim>\<open>../shared/api.ts\<close>, which is not among the sources. The spec (section 3) gives
  an item the fields id, text, completed, createdAt and versionstamp, and the list its
  ordered items; the view reads \<^verbatim>\<open>data.items\<close>, \<^verbatim>\<open>item.id\<close>, \<^verbatim>\<open>item.text\<close>,
  \<^verbatim>\<open>item.completed\<close>, \<^verbatim>\<open>item.createdAt\<close> and \<^verbatim>\<open>item.versionstamp\<close>.
  Field names carry the record's name as a prefix where two records of the source share
  a field name.
\<close>

record TodoListItem =
  item_id :: string
  item_text :: string
  item_completed :: bool
  createdAt :: nat
  versionstamp :: string

record TodoList =
  items :: "TodoListItem list"

text \<open>Lines 5-8: \<^verbatim>\<open>interface LocalMutation { text: string | null; completed: boolean }\<close>.\<close>

record LocalMutation =
  mut_text :: "string option"
  mut_completed :: bool

text \<open>Lines 51-55: one entry of the array handed to \<^verbatim>\<open>axios.post\<close>.\<close>

record PostedEdit =
  edit_id :: string
  edit_text :: "string option"
  edit_completed :: bool

subsection \<open>The JavaScript \<^verbatim>\<open>Map\<close>\<close>

text \<open>
  A JavaScript \<^verbatim>\<open>Map\<close> iterates in insertion order, and \<^verbatim>\<open>set\<close> on a key that is
  present replaces the value where the key stands. The map is an association list in
  iteration order; \<^verbatim>\<open>Array.from(map)\<close> is the list of its entries and
  \<^verbatim>\<open>new Map()\<close> is the empty list.
\<close>

type_synonym ('k, 'v) js_map = "('k \<times> 'v) list"

fun Map_set :: "'k \<Rightarrow> 'v \<Rightarrow> ('k, 'v) js_map \<Rightarrow> ('k, 'v) js_map" where
  "Map_set k v [] = [(k, v)]"
| "Map_set k v ((k', v') # m) = (if k' = k then (k, v) # m else (k', v') # Map_set k v m)"

definition Array_from :: "('k, 'v) js_map \<Rightarrow> ('k \<times> 'v) list" where
  "Array_from m = m"

definition new_Map :: "('k, 'v) js_map" where
  "new_Map = []"

text \<open>
  \<^verbatim>\<open>xs.slice(a, b)\<close> for indices \<open>0 \<le> a \<le> b\<close>: the elements from \<open>a\<close> up to, not
  including, \<open>b\<close>, cut at the end of the array.
\<close>

definition slice :: "nat \<Rightarrow> nat \<Rightarrow> 'a list \<Rightarrow> 'a list" where
  "slice a b xs = take (b - a) (drop a xs)"

subsection \<open>JavaScript numbers\<close>

text \<open>
  A JavaScript number is an IEEE 754 binary64 value; \<open>+\<close> and \<open>*\<close> return the exact
  result rounded to the nearest representable value, ties to the even significand. The
  finite values are modelled as rationals. \<open>expo x\<close> is the binary exponent of \<open>x\<close>,
  the \<open>e\<close> with \<open>2 ^ e \<le> \<bar>x\<bar> < 2 ^ (e + 1)\<close>, and \<open>-1022\<close> below that (the subnormal
  range); \<open>ulp x\<close> is the spacing of the representable values at \<open>x\<close> (52 fraction
  bits). Overflow to \<^verbatim>\<open>Infinity\<close> starts near \<open>2 ^ 1024\<close> and is not represented; the
  numbers of this program stay below \<open>2 ^ 14\<close>.
\<close>

type_synonym number = rat

definition expo :: "rat \<Rightarrow> int" where
  "expo x =
     (if x = 0 then - 1022
      else if 1 \<le> \<bar>x\<bar> then bitlen \<lfloor>\<bar>x\<bar>\<rfloor> - 1
      else max (- 1022) (- bitlen (\<lceil>1 / \<bar>x\<bar>\<rceil> - 1)))"

definition ulp :: "rat \<Rightarrow> rat" where
  "ulp x = power_int 2 (expo x - 52)"

definition round_half_even :: "rat \<Rightarrow> int" where
  "round_half_even q =
     (let f = \<lfloor>q\<rfloor>; d = q - of_int f
      in if d < 1 / 2 then f
         else if 1 / 2 < d then f + 1
         else if even f then f else f + 1)"

definition double_round :: "rat \<Rightarrow> number" where
  "double_round x = of_int (round_half_even (x / ulp x)) * ulp x"

definition js_add :: "number \<Rightarrow> number \<Rightarrow> number" where
  "js_add a b = double_round (a + b)"

definition js_mul :: "number \<Rightarrow> number \<Rightarrow> number" where
  "js_mul a b = double_round (a * b)"

section \<open>The mutation buffer\<close>

text \<open>
  Lines 84-87 and 94-97: \<^verbatim>\<open>localMutations.current.set(id, { text, completed })\<close>, the one
  way an edit enters the buffer. Lines 41-42: the sync loop copies the entries out and
  replaces the map by a new one, with no \<^verbatim>\<open>await\<close> in between.
\<close>

definition record_edit ::
  "'k \<Rightarrow> 'v \<Rightarrow> ('k, 'v) js_map \<Rightarrow> ('k, 'v) js_map" where
  "record_edit k v m = Map_set k v m"

definition drainAll :: "('k, 'v) js_map \<Rightarrow> ('k \<times> 'v) list \<times> ('k, 'v) js_map" where
  "drainAll m = (Array_from m, new_Map)"

text \<open>
  A sequence of record calls and drains, run from a buffer: the buffer left and the
  results of the drains, in order.
\<close>

datatype ('k, 'v) buf_op = Record 'k 'v | DrainAll

fun exec_ops ::
  "('k, 'v) js_map \<Rightarrow> ('k, 'v) buf_op list \<Rightarrow> ('k, 'v) js_map \<times> ('k \<times> 'v) list list" where
  "exec_ops m [] = (m, [])"
| "exec_ops m (Record k v # ops) = exec_ops (record_edit k v m) ops"
| "exec_ops m (DrainAll # ops) =
     (let (d, m') = drainAll m; (m'', ds) = exec_ops m' ops in (m'', d # ds))"

fun records_of :: "('k, 'v) buf_op list \<Rightarrow> ('k \<times> 'v) list" where
  "records_of [] = []"
| "records_of (Record k v # ops) = (k, v) # records_of ops"
| "records_of (DrainAll # ops) = records_of ops"

fun count_drains :: "('k, 'v) buf_op list \<Rightarrow> nat" where
  "count_drains [] = 0"
| "count_drains (Record k v # ops) = count_drains ops"
| "count_drains (DrainAll # ops) = Suc (count_drains ops)"

section \<open>The view component\<close>

subsection \<open>State\<close>

text \<open>
  An \<^verbatim>\<open>EventSource\<close> object: whether \<^verbatim>\<open>close()\<close> was called on it, and whether the
  listeners of lines 23 and 30 were added to it. A closed source dispatches no event.
\<close>

record EventSource =
  closed :: bool
  message_listener :: bool
  error_listener :: bool

text \<open>
  Where the async body of the sync loop (lines 39-74) is suspended: at the
  \<^verbatim>\<open>await axios.post\<close> of line 58, at the retry timer of line 61, at the timer of the
  pause (line 68) or at the animation frame it requests (line 69).
\<close>

datatype loop_pc = AwaitPost | AwaitRetryTimer | AwaitPauseTimer | AwaitAnimationFrame

text \<open>
  One \<^verbatim>\<open>TodoItem\<close> component (lines 133-230): its \<^verbatim>\<open>item\<close> prop, its two state hooks
  and the value of its text input, which exists only while the row is being edited
  (the ref \<^verbatim>\<open>input.current\<close> is null otherwise).
\<close>

record TodoItem =
  row_item :: TodoListItem
  editing :: bool
  row_busy :: bool
  row_input :: "string option"

text \<open>
  The component instance: the state hooks and refs of lines 13-18 and 77, the
  \<^verbatim>\<open>EventSource\<close> objects created so far with the variable \<^verbatim>\<open>es\<close> (an index into
  them) and the delays of the error handlers suspended at line 33 (oldest first), the locals of the
  sync loop (\<^verbatim>\<open>mutations\<close>, \<^verbatim>\<open>i\<close> and where it is suspended), the mounted rows by
  their \<^verbatim>\<open>key\<close>, and how often \<^verbatim>\<open>generateItemId\<close> and \<^verbatim>\<open>Math.random\<close> were called.
\<close>

record TodoListView =
  data :: TodoList
  dirty :: bool
  localMutations :: "(string, LocalMutation) js_map"
  hasLocalMutations :: bool
  adding :: bool
  addTodoInput :: string
  sources :: "EventSource list"
  es :: nat
  backoff_timers :: "number list"
  mutations :: "(string \<times> LocalMutation) list"
  loop_i :: nat
  pc :: loop_pc
  rows :: "(string \<times> TodoItem) list"
  idCalls :: nat
  randomCalls :: nat

text \<open>
  What the component takes from outside: \<^verbatim>\<open>JSON.parse\<close> (\<open>None\<close> where it throws),
  the result of the \<open>n\<close>-th call of \<^verbatim>\<open>generateItemId\<close> (line 232: the clock and a
  random UUID) and of the \<open>n\<close>-th call of \<^verbatim>\<open>Math.random\<close>.
\<close>

record env =
  JSON_parse :: "string \<Rightarrow> TodoList option"
  generateItemId :: "nat \<Rightarrow> string"
  Math_random :: "nat \<Rightarrow> number"

text \<open>What a handler does to the outside, in the order it does it.\<close>

datatype effect =
    Post "PostedEdit list"
  | SetTimeout number
  | RequestAnimationFrame
  | EventSource_new nat
  | EventSource_close nat

text \<open>
  What the browser delivers to the component. Each handler runs to its next
  \<^verbatim>\<open>await\<close> without interruption (one thread, cooperative scheduling), so a run of the
  component is a sequence of these events:
  \<^item> a message event with the given data, or an error event, on the source of the given
    index; the timer of line 33 firing;
  \<^item> the promise of \<^verbatim>\<open>axios.post\<close> (line 58) resolving or rejecting (axios rejects on a
    network error and on a response status that is not a success); the timer of line 61
    firing; the timer of line 68 firing; the animation frame asked for in line 69;
  \<^item> the user typing into the new-task input or clicking the add button;
  \<^item> the user, in the row of the given key, clicking edit, typing into the row's input,
    clicking save or cancel, clicking delete and answering the confirmation, or changing the
    checkbox to the given state.
\<close>

datatype event =
    EsMessage nat string
  | EsError nat
  | BackoffTimer
  | PostResolved
  | PostRejected
  | RetryTimer
  | PauseTimer
  | AnimationFrame
  | TypeNewTask string
  | ClickAdd
  | ClickEdit string
  | TypeRow string string
  | ClickSave string
  | ClickCancel string
  | ClickDelete string bool
  | ChangeCompleted string bool

text \<open>Line 17: \<^verbatim>\<open>const busy = hasLocalMutations || dirty\<close>.\<close>

definition busy :: "TodoListView \<Rightarrow> bool" where
  "busy s = (hasLocalMutations s \<or> dirty s)"

subsection \<open>Rendering the rows\<close>

text \<open>
  Line 119: one \<^verbatim>\<open>TodoItem\<close> per item, keyed by id and versionstamp. A row whose key
  was there before the render keeps its hooks and gets the new \<^verbatim>\<open>item\<close> prop; a new
  key mounts a fresh row (not editing, not busy).
\<close>

definition row_key :: "TodoListItem \<Rightarrow> string" where
  "row_key item = item_id item @ '':'' @ versionstamp item"

definition render_row :: "(string \<times> TodoItem) list \<Rightarrow> TodoListItem \<Rightarrow> string \<times> TodoItem" where
  "render_row old item =
     (case map_of old (row_key item) of
        Some r \<Rightarrow> (row_key item, r\<lparr>row_item := item\<rparr>)
      | None \<Rightarrow> (row_key item,
          \<lparr>row_item = item, editing = False, row_busy = False, row_input = None\<rparr>))"

definition render_rows :: "TodoList \<Rightarrow> (string \<times> TodoItem) list \<Rightarrow> (string \<times> TodoItem) list" where
  "render_rows d old = map (render_row old) (items d)"

subsection \<open>The live channel (lines 20-36)\<close>

text \<open>Lines 23-28, the message listener. When \<^verbatim>\<open>JSON.parse\<close> throws, no setter runs.\<close>

definition on_message :: "env \<Rightarrow> string \<Rightarrow> TodoListView \<Rightarrow> TodoListView \<times> effect list" where
  "on_message en e_data s =
     (case JSON_parse en e_data of
        None \<Rightarrow> (s, [])
      | Some newData \<Rightarrow>
          (s\<lparr>data := newData, dirty := False, adding := False,
             rows := render_rows newData (rows s)\<rparr>, []))"

text \<open>
  Lines 30-33, the error listener up to its \<^verbatim>\<open>await\<close>: it closes the source the
  variable \<^verbatim>\<open>es\<close> holds, draws the delay and starts the timer.
\<close>

definition backoff_delay :: "number \<Rightarrow> number" where
  "backoff_delay r = js_add 10000 (js_mul r 5000)"

definition on_error :: "env \<Rightarrow> TodoListView \<Rightarrow> TodoListView \<times> effect list" where
  "on_error en s =
     (let backoff = backoff_delay (Math_random en (randomCalls s))
      in (s\<lparr>sources := (sources s)[es s := (sources s ! es s)\<lparr>closed := True\<rparr>],
             randomCalls := randomCalls s + 1,
             backoff_timers := backoff_timers s @ [backoff]\<rparr>,
          [EventSource_close (es s), SetTimeout backoff]))"

text \<open>
  Line 34, after the timer: a new \<^verbatim>\<open>EventSource\<close> is assigned to \<^verbatim>\<open>es\<close>. No listener
  is added to it: \<^verbatim>\<open>addEventListener\<close> was called on the first object only.
\<close>

definition on_backoff_elapsed :: "TodoListView \<Rightarrow> TodoListView \<times> effect list" where
  "on_backoff_elapsed s =
     (case backoff_timers s of
        [] \<Rightarrow> (s, [])
      | b # bs \<Rightarrow>
          (s\<lparr>backoff_timers := bs,
             sources := sources s @
               [\<lparr>closed = False, message_listener = False, error_listener = False\<rparr>],
             es := length (sources s)\<rparr>,
           [EventSource_new (length (sources s))]))"

text \<open>Whether source \<open>c\<close> exists, is not closed and has the listener asked for.\<close>

definition dispatches :: "(EventSource \<Rightarrow> bool) \<Rightarrow> nat \<Rightarrow> TodoListView \<Rightarrow> bool" where
  "dispatches listener c s =
     (c < length (sources s) \<and> \<not> closed (sources s ! c) \<and> listener (sources s ! c))"

subsection \<open>The sync loop (lines 38-75)\<close>

definition chunkSize :: nat where
  "chunkSize = 10"

text \<open>Lines 49-55: the chunk of the current iteration of the \<^verbatim>\<open>for\<close> loop.\<close>

definition posted :: "string \<times> LocalMutation \<Rightarrow> PostedEdit" where
  "posted e = (case e of (k, mut) \<Rightarrow>
     \<lparr>edit_id = k, edit_text = mut_text mut, edit_completed = mut_completed mut\<rparr>)"

definition chunk_at :: "(string \<times> LocalMutation) list \<Rightarrow> nat \<Rightarrow> PostedEdit list" where
  "chunk_at muts i = map posted (slice i (i + chunkSize) muts)"

text \<open>Lines 67-72: the pause that ends an iteration of the outer loop.\<close>

definition pause :: "TodoListView \<Rightarrow> TodoListView \<times> effect list" where
  "pause s = (s\<lparr>pc := AwaitPauseTimer\<rparr>, [SetTimeout 1000])"

text \<open>
  Line 48 with the loop index already set: the test of the \<^verbatim>\<open>for\<close> loop, and its body
  up to the \<^verbatim>\<open>await\<close> of line 58.
\<close>

definition for_loop :: "TodoListView \<Rightarrow> TodoListView \<times> effect list" where
  "for_loop s =
     (if loop_i s < length (mutations s)
      then (s\<lparr>pc := AwaitPost\<rparr>, [Post (chunk_at (mutations s) (loop_i s))])
      else pause s)"

text \<open>Lines 41-48: the head of one iteration of \<^verbatim>\<open>while (1)\<close>.\<close>

definition iteration :: "TodoListView \<Rightarrow> TodoListView \<times> effect list" where
  "iteration s =
     (let (muts, fresh) = drainAll (localMutations s);
          s1 = s\<lparr>mutations := muts, localMutations := fresh, hasLocalMutations := False\<rparr>
      in if length muts \<noteq> 0
         then for_loop (s1\<lparr>dirty := True, loop_i := 0\<rparr>)
         else pause s1)"

text \<open>Lines 58-59: the post succeeded; \<^verbatim>\<open>break\<close>, then \<^verbatim>\<open>i += chunkSize\<close>.\<close>

definition on_post_resolved :: "TodoListView \<Rightarrow> TodoListView \<times> effect list" where
  "on_post_resolved s =
     (if pc s = AwaitPost then for_loop (s\<lparr>loop_i := loop_i s + chunkSize\<rparr>) else (s, []))"

text \<open>Lines 60-61: the post failed; wait one second.\<close>

definition on_post_rejected :: "TodoListView \<Rightarrow> TodoListView \<times> effect list" where
  "on_post_rejected s =
     (if pc s = AwaitPost then (s\<lparr>pc := AwaitRetryTimer\<rparr>, [SetTimeout 1000]) else (s, []))"

text \<open>Line 56 again after the wait: the same \<^verbatim>\<open>chunk\<close> is posted.\<close>

definition on_retry_timer :: "TodoListView \<Rightarrow> TodoListView \<times> effect list" where
  "on_retry_timer s =
     (if pc s = AwaitRetryTimer
      then (s\<lparr>pc := AwaitPost\<rparr>, [Post (chunk_at (mutations s) (loop_i s))])
      else (s, []))"

definition on_pause_timer :: "TodoListView \<Rightarrow> TodoListView \<times> effect list" where
  "on_pause_timer s =
     (if pc s = AwaitPauseTimer
      then (s\<lparr>pc := AwaitAnimationFrame\<rparr>, [RequestAnimationFrame])
      else (s, []))"

definition on_animation_frame :: "TodoListView \<Rightarrow> TodoListView \<times> effect list" where
  "on_animation_frame s = (if pc s = AwaitAnimationFrame then iteration s else (s, []))"

subsection \<open>Recording edits (lines 77-101)\<close>

text \<open>
  Lines 92-101. \<^verbatim>\<open>saveTodo\<close> stores the two fields it is given under the item's id.
\<close>

definition saveTodo ::
  "TodoListItem \<Rightarrow> string option \<Rightarrow> bool \<Rightarrow> TodoListView \<Rightarrow> TodoListView" where
  "saveTodo item txt completed s =
     s\<lparr>localMutations :=
         record_edit (item_id item) \<lparr>mut_text = txt, mut_completed = completed\<rparr>
           (localMutations s),
       hasLocalMutations := True\<rparr>"

text \<open>
  Lines 78-90. \<^verbatim>\<open>!value\<close> holds of the empty string only; \<^verbatim>\<open>generateItemId\<close> is
  called after the test.
\<close>

definition addTodo :: "env \<Rightarrow> TodoListView \<Rightarrow> TodoListView" where
  "addTodo en s =
     (let v = addTodoInput s
      in if v = [] then s
         else
           (let k = generateItemId en (idCalls s)
            in s\<lparr>addTodoInput := [],
                 idCalls := idCalls s + 1,
                 localMutations :=
                   record_edit k \<lparr>mut_text = Some v, mut_completed = False\<rparr> (localMutations s),
                 hasLocalMutations := True,
                 adding := True\<rparr>))"

subsection \<open>The handlers of a row (lines 142-161)\<close>

definition doSave :: "TodoItem \<Rightarrow> TodoListView \<Rightarrow> TodoItem \<times> TodoListView" where
  "doSave r s =
     (case row_input r of
        None \<Rightarrow> (r, s)
      | Some v \<Rightarrow>
          (r\<lparr>row_busy := True\<rparr>,
           saveTodo (row_item r) (Some v) (item_completed (row_item r)) s))"

text \<open>
  Lines 147-151. The value written to the input is lost with the input, which the next
  render removes.
\<close>

definition cancelEdit :: "TodoItem \<Rightarrow> TodoListView \<Rightarrow> TodoItem \<times> TodoListView" where
  "cancelEdit r s =
     (case row_input r of
        None \<Rightarrow> (r, s)
      | Some v \<Rightarrow> (r\<lparr>editing := False, row_input := None\<rparr>, s))"

text \<open>Lines 152-157; \<open>yes\<close> is the answer of \<^verbatim>\<open>confirm\<close>.\<close>

definition doDelete :: "bool \<Rightarrow> TodoItem \<Rightarrow> TodoListView \<Rightarrow> TodoItem \<times> TodoListView" where
  "doDelete yes r s =
     (if \<not> yes then (r, s)
      else (r\<lparr>row_busy := True\<rparr>,
            saveTodo (row_item r) None (item_completed (row_item r)) s))"

definition doSaveCompleted ::
  "bool \<Rightarrow> TodoItem \<Rightarrow> TodoListView \<Rightarrow> TodoItem \<times> TodoListView" where
  "doSaveCompleted completed r s =
     (r\<lparr>row_busy := True\<rparr>,
      saveTodo (row_item r) (Some (item_text (row_item r))) completed s)"

text \<open>Line 213, and the input of lines 170-174 mounting with its default value.\<close>

definition startEdit :: "TodoItem \<Rightarrow> TodoListView \<Rightarrow> TodoItem \<times> TodoListView" where
  "startEdit r s = (r\<lparr>editing := True, row_input := Some (item_text (row_item r))\<rparr>, s)"

definition typeRow :: "string \<Rightarrow> TodoItem \<Rightarrow> TodoListView \<Rightarrow> TodoItem \<times> TodoListView" where
  "typeRow v r s = (r\<lparr>row_input := Some v\<rparr>, s)"

text \<open>
  Lines 168-227: which controls a row shows, and which of them are disabled. The save
  and cancel buttons exist while editing, the checkbox and the edit and delete buttons
  while not, and all five are disabled while the row is busy.
\<close>

definition edit_controls :: "TodoItem \<Rightarrow> bool" where
  "edit_controls r = (editing r \<and> \<not> row_busy r)"

definition view_controls :: "TodoItem \<Rightarrow> bool" where
  "view_controls r = (\<not> editing r \<and> \<not> row_busy r)"

text \<open>An event of the row with the given key, when the row is mounted and the control enabled.\<close>

definition with_row ::
  "string \<Rightarrow> (TodoItem \<Rightarrow> bool) \<Rightarrow> (TodoItem \<Rightarrow> TodoListView \<Rightarrow> TodoItem \<times> TodoListView)
     \<Rightarrow> TodoListView \<Rightarrow> TodoListView" where
  "with_row key enabled handler s =
     (case map_of (rows s) key of
        None \<Rightarrow> s
      | Some r \<Rightarrow>
          if enabled r
          then (let (r', s') = handler r s in s'\<lparr>rows := Map_set key r' (rows s')\<rparr>)
          else s)"

subsection \<open>Mounting and running\<close>

text \<open>
  Lines 13-21 and 38-41: the hooks' initial values, the first \<^verbatim>\<open>EventSource\<close> with both
  listeners, and the first iteration of the sync loop, which starts at once.
\<close>

definition mount :: "TodoList \<Rightarrow> TodoListView \<times> effect list" where
  "mount initialData =
     (let s0 = \<lparr>data = initialData, dirty = False, localMutations = new_Map,
                hasLocalMutations = False, adding = False, addTodoInput = [],
                sources = [\<lparr>closed = False, message_listener = True, error_listener = True\<rparr>],
                es = 0, backoff_timers = [], mutations = [], loop_i = 0,
                pc = AwaitAnimationFrame, rows = render_rows initialData [],
                idCalls = 0, randomCalls = 0\<rparr>;
          (s1, out) = iteration s0
      in (s1, EventSource_new 0 # out))"

text \<open>One event: the handler it wakes, if any. The add button is disabled while \<^verbatim>\<open>adding\<close> (line 113).\<close>

fun step :: "env \<Rightarrow> TodoListView \<Rightarrow> event \<Rightarrow> TodoListView \<times> effect list" where
  "step en s (EsMessage c e_data) =
     (if dispatches message_listener c s then on_message en e_data s else (s, []))"
| "step en s (EsError c) =
     (if dispatches error_listener c s then on_error en s else (s, []))"
| "step en s BackoffTimer = on_backoff_elapsed s"
| "step en s PostResolved = on_post_resolved s"
| "step en s PostRejected = on_post_rejected s"
| "step en s RetryTimer = on_retry_timer s"
| "step en s PauseTimer = on_pause_timer s"
| "step en s AnimationFrame = on_animation_frame s"
| "step en s (TypeNewTask v) = (s\<lparr>addTodoInput := v\<rparr>, [])"
| "step en s ClickAdd = (if adding s then (s, []) else (addTodo en s, []))"
| "step en s (ClickEdit key) = (with_row key view_controls startEdit s, [])"
| "step en s (TypeRow key v) = (with_row key editing (typeRow v) s, [])"
| "step en s (ClickSave key) = (with_row key edit_controls doSave s, [])"
| "step en s (ClickCancel key) = (with_row key edit_controls cancelEdit s, [])"
| "step en s (ClickDelete key yes) = (with_row key view_controls (doDelete yes) s, [])"
| "step en s (ChangeCompleted key checked) =
     (with_row key view_controls (doSaveCompleted checked) s, [])"

fun run :: "env \<Rightarrow> TodoListView \<Rightarrow> event list \<Rightarrow> TodoListView \<times> effect list" where
  "run en s [] = (s, [])"
| "run en s (e # evs) =
     (let (s1, out1) = step en s e; (s2, out2) = run en s1 evs in (s2, out1 @ out2))"

text \<open>The submissions among the effects of a run, in order.\<close>

fun posts :: "effect list \<Rightarrow> PostedEdit list list" where
  "posts [] = []"
| "posts (Post c # out) = c # posts out"
| "posts (x # out) = posts out"

section \<open>Observing runs\<close>

text \<open>
  The events of one chunk whose post fails \<open>n\<close> times, each failure followed by the
  retry timer, and then succeeds.
\<close>

definition attempts :: "nat \<Rightarrow> event list" where
  "attempts n = concat (replicate n [PostRejected, RetryTimer]) @ [PostResolved]"

text \<open>
  The batches the sync loop takes from the buffer during a run, in order: the value of
  \<^verbatim>\<open>mutations\<close> after each wake-up of the loop (lines 41-42).
\<close>

fun drained :: "env \<Rightarrow> TodoListView \<Rightarrow> event list \<Rightarrow> (string \<times> LocalMutation) list list" where
  "drained en s [] = []"
| "drained en s (e # evs) =
     (if pc s = AwaitAnimationFrame \<and> e = AnimationFrame
      then mutations (fst (step en s e)) # drained en (fst (step en s e)) evs
      else drained en (fst (step en s e)) evs)"

text \<open>
  The record call or the drain that one event makes, with the arguments the handlers
  pass to the buffer: the add button records the text of the input under a fresh id with
  \<open>completed = false\<close> (lines 83-87); in a row, save records the text of the row's input
  with the item's \<open>completed\<close> (line 145), a confirmed delete records \<open>null\<close> with the
  item's \<open>completed\<close> (line 156), and the checkbox records the item's text with the new
  state (line 160), each under the item's id and only where the control is enabled; the
  wake-up of the sync loop drains (lines 41-42). Every other event makes none. Then the
  calls of a run, in order.
\<close>

fun ops_of :: "env \<Rightarrow> TodoListView \<Rightarrow> event \<Rightarrow> (string, LocalMutation) buf_op list" where
  "ops_of en s AnimationFrame = (if pc s = AwaitAnimationFrame then [DrainAll] else [])"
| "ops_of en s ClickAdd =
     (if adding s \<or> addTodoInput s = [] then []
      else [Record (generateItemId en (idCalls s))
              \<lparr>mut_text = Some (addTodoInput s), mut_completed = False\<rparr>])"
| "ops_of en s (ClickSave key) =
     (case map_of (rows s) key of
        None \<Rightarrow> []
      | Some r \<Rightarrow>
          (case row_input r of
             None \<Rightarrow> []
           | Some v \<Rightarrow>
               if edit_controls r
               then [Record (item_id (row_item r))
                       \<lparr>mut_text = Some v, mut_completed = item_completed (row_item r)\<rparr>]
               else []))"
| "ops_of en s (ClickDelete key yes) =
     (case map_of (rows s) key of
        None \<Rightarrow> []
      | Some r \<Rightarrow>
          if view_controls r \<and> yes
          then [Record (item_id (row_item r))
                  \<lparr>mut_text = None, mut_completed = item_completed (row_item r)\<rparr>]
          else [])"
| "ops_of en s (ChangeCompleted key checked) =
     (case map_of (rows s) key of
        None \<Rightarrow> []
      | Some r \<Rightarrow>
          if view_controls r
          then [Record (item_id (row_item r))
                  \<lparr>mut_text = Some (item_text (row_item r)), mut_completed = checked\<rparr>]
          else [])"
| "ops_of en s e = []"

fun run_ops :: "env \<Rightarrow> TodoListView \<Rightarrow> event list \<Rightarrow> (string, LocalMutation) buf_op list" where
  "run_ops en s [] = []"
| "run_ops en s (e # evs) = ops_of en s e @ run_ops en (fst (step en s e)) evs"

text \<open>Whether an event is a message of the live channel.\<close>

fun is_message :: "event \<Rightarrow> bool" where
  "is_message (EsMessage c d) = True"
| "is_message e = False"

text \<open>No source but the first has a listener.\<close>

definition only_first_listens :: "TodoListView \<Rightarrow> bool" where
  "only_first_listens s =
     (\<forall>c. 0 < c \<and> c < length (sources s) \<longrightarrow>
        \<not> message_listener (sources s ! c) \<and> \<not> error_listener (sources s ! c))"

section \<open>Examples\<close>

text \<open>
  A list of one item, and an environment whose \<^verbatim>\<open>JSON.parse\<close> reads the payload
  \<open>''v2''\<close> as the same list at a later revision and throws on every other payload.
\<close>

definition example_item :: TodoListItem where
  "example_item =
     \<lparr>item_id = ''x'', item_text = ''milk'', item_completed = False, createdAt = 0,
      versionstamp = ''1''\<rparr>"

definition example_list :: TodoList where
  "example_list = \<lparr>items = [example_item]\<rparr>"

definition example_env :: env where
  "example_env =
     \<lparr>JSON_parse =
        (\<lambda>d. if d = ''v2'' then Some \<lparr>items = [example_item\<lparr>versionstamp := ''2''\<rparr>]\<rparr>
             else None),
      generateItemId = (\<lambda>n. replicate (Suc n) CHR ''i''),
      Math_random = (\<lambda>n. 1 / 2)\<rparr>"

text \<open>A view about to wake from its pause with 23 edits in the buffer.\<close>

definition example_edits :: "(string \<times> LocalMutation) list" where
  "example_edits =
     map (\<lambda>n. (replicate (Suc n) CHR ''a'', \<lparr>mut_text = Some ''t'', mut_completed = False\<rparr>))
       [0..<23]"

definition example_view :: TodoListView where
  "example_view =
     (fst (mount example_list))\<lparr>pc := AwaitAnimationFrame, localMutations := example_edits,
        hasLocalMutations := True\<rparr>"

section \<open>Basic facts\<close>

lemmas loop_defs = on_post_resolved_def on_post_rejected_def on_retry_timer_def
  on_pause_timer_def on_animation_frame_def iteration_def for_loop_def pause_def drainAll_def
  Array_from_def new_Map_def

lemmas row_defs = with_row_def doSave_def cancelEdit_def doDelete_def doSaveCompleted_def
  startEdit_def typeRow_def saveTodo_def

lemmas channel_defs = on_message_def on_error_def on_backoff_elapsed_def

subsection \<open>The map\<close>

lemma map_of_Map_set: "map_of (Map_set k v m) = (map_of m)(k \<mapsto> v)"
  by (induction m) (auto simp: fun_eq_iff)

lemma keys_Map_set: "fst ` set (Map_set k v m) = insert k (fst ` set m)"
  by (simp add: dom_map_of_conv_image_fst [symmetric] map_of_Map_set)

lemma distinct_Map_set: "distinct (map fst m) \<Longrightarrow> distinct (map fst (Map_set k v m))"
  by (induction m) (auto simp: keys_Map_set)

lemma set_Map_set: "set (Map_set k v m) \<subseteq> insert (k, v) (set m)"
  by (induction m) (auto split: if_splits)

lemma distinct_keys_distinct: "distinct (map fst m) \<Longrightarrow> distinct m"
  by (induction m) (auto simp: image_iff)

subsection \<open>Sequences of buffer operations\<close>

lemma exec_ops_append:
  "exec_ops m (xs @ ys) =
     (let (m1, ds1) = exec_ops m xs; (m2, ds2) = exec_ops m1 ys in (m2, ds1 @ ds2))"
  by (induction m xs rule: exec_ops.induct) (auto split: prod.splits)

lemma length_exec_ops: "length (snd (exec_ops m ops)) = count_drains ops"
  by (induction m ops rule: exec_ops.induct) (auto split: prod.splits)

lemma exec_ops_last_drain:
  "ops \<noteq> [] \<Longrightarrow> last ops = DrainAll \<Longrightarrow> fst (exec_ops m ops) = []"
  by (induction m ops rule: exec_ops.induct)
     (auto split: prod.splits if_splits simp: drainAll_def new_Map_def)

lemma exec_ops_records:
  "exec_ops m (map (\<lambda>(k, v). Record k v) w) = (m', ds) \<Longrightarrow>
     ds = [] \<and> map_of m' = map_of m ++ map_of (rev w) \<and> set m' \<subseteq> set m \<union> set w
     \<and> (distinct (map fst m) \<longrightarrow> distinct (map fst m'))"
proof (induction w arbitrary: m)
  case Nil
  then show ?case by simp
next
  case (Cons a w)
  obtain k v where a: "a = (k, v)" by (cases a)
  from Cons.prems have ex: "exec_ops (Map_set k v m) (map (\<lambda>(k, v). Record k v) w) = (m', ds)"
    by (simp add: a record_edit_def)
  note IH = Cons.IH [OF ex]
  have "map_of (Map_set k v m) ++ map_of (rev w) = map_of m ++ map_of (rev (a # w))"
    by (simp add: a map_of_Map_set fun_eq_iff map_add_def split: option.splits)
  moreover have "set m' \<subseteq> set m \<union> set (a # w)"
    using IH set_Map_set [of k v m] by (auto simp: a)
  ultimately show ?case using IH by (simp add: distinct_Map_set)
qed

lemma exec_ops_distinct:
  "exec_ops m ops = (m', ds) \<Longrightarrow> distinct (map fst m) \<Longrightarrow>
   set m \<inter> set (records_of ops) = {} \<Longrightarrow> distinct (records_of ops) \<Longrightarrow>
     distinct (concat ds) \<and> set (concat ds) \<subseteq> set m \<union> set (records_of ops)"
proof (induction ops arbitrary: m m' ds)
  case Nil
  then show ?case by simp
next
  case (Cons op ops)
  show ?case
  proof (cases op)
    case (Record k v)
    have ex: "exec_ops (Map_set k v m) ops = (m', ds)"
      using Cons.prems(1) by (simp add: Record record_edit_def)
    have sub: "set (Map_set k v m) \<subseteq> insert (k, v) (set m)" by (rule set_Map_set)
    have dis: "set (Map_set k v m) \<inter> set (records_of ops) = {}"
      using sub Cons.prems(3,4) by (auto simp: Record)
    have "distinct (records_of ops)" using Cons.prems(4) by (simp add: Record)
    from Cons.IH [OF ex distinct_Map_set [OF Cons.prems(2)] dis this]
    show ?thesis using sub by (auto simp: Record)
  next
    case DrainAll
    obtain m2 ds2 where ex: "exec_ops [] ops = (m2, ds2)"
      by (cases "exec_ops [] ops :: ('a \<times> 'b) list \<times> ('a \<times> 'b) list list") blast
    have ds: "ds = m # ds2"
      using Cons.prems(1) ex by (simp add: DrainAll drainAll_def Array_from_def new_Map_def)
    have "distinct (records_of ops)" using Cons.prems(4) by (simp add: DrainAll)
    from Cons.IH [OF ex _ _ this]
    have IH: "distinct (concat ds2) \<and> set (concat ds2) \<subseteq> set (records_of ops)" by simp
    show ?thesis
      using IH Cons.prems(2,3) distinct_keys_distinct [of m] by (auto simp: ds DrainAll)
  qed
qed

lemma distinct_concat_nth:
  "distinct (concat ds) \<Longrightarrow> i < j \<Longrightarrow> j < length ds \<Longrightarrow> set (ds ! i) \<inter> set (ds ! j) = {}"
proof (induction ds arbitrary: i j)
  case Nil
  then show ?case by simp
next
  case (Cons d ds)
  show ?case
  proof (cases i)
    case 0
    with Cons.prems obtain j' where j: "j = Suc j'" "j' < length ds"
      by (cases j) auto
    then have "set (ds ! j') \<subseteq> \<Union> (set ` set ds)"
      using nth_mem [of j' ds] by blast
    with Cons.prems(1) show ?thesis by (auto simp: 0 j)
  next
    case (Suc i')
    with Cons.prems obtain j' where j: "j = Suc j'" "i' < j'" "j' < length ds"
      by (cases j) auto
    with Cons.IH [of i' j'] Cons.prems(1) show ?thesis by (simp add: Suc)
  qed
qed

subsection \<open>Chunks of ten\<close>

lemma chunks_concat:
  "(length xs + 9) div 10 = k \<Longrightarrow>
     concat (map (\<lambda>j. take 10 (drop (10 * j) xs)) [0..<k]) = xs"
proof (induction k arbitrary: xs)
  case 0
  then have "length xs = 0" by arith
  then show ?case by simp
next
  case (Suc k)
  have len: "(length (drop 10 xs) + 9) div 10 = k"
    using Suc.prems by simp
  have "map (\<lambda>j. take 10 (drop (10 * j) xs)) [0..<Suc k] =
        take 10 xs # map (\<lambda>j. take 10 (drop (10 * j) (drop 10 xs))) [0..<k]"
    by (simp add: upt_conv_Cons map_Suc_upt [symmetric] del: upt_Suc add.commute add: add.commute)
  then show ?case using Suc.IH [OF len] by simp
qed

lemma chunks_lengths:
  "(length xs + 9) div 10 = k \<Longrightarrow>
     map length (map (\<lambda>j. take 10 (drop (10 * j) xs)) [0..<k]) =
       replicate (length xs div 10) 10 @ (if length xs mod 10 = 0 then [] else [length xs mod 10])"
proof (induction k arbitrary: xs)
  case 0
  then have "length xs = 0" by arith
  then show ?case by simp
next
  case (Suc k)
  have len: "(length (drop 10 xs) + 9) div 10 = k"
    using Suc.prems by simp
  have unroll: "map (\<lambda>j. take 10 (drop (10 * j) xs)) [0..<Suc k] =
        take 10 xs # map (\<lambda>j. take 10 (drop (10 * j) (drop 10 xs))) [0..<k]"
    by (simp add: upt_conv_Cons map_Suc_upt [symmetric] del: upt_Suc add.commute add: add.commute)
  show ?case
  proof (cases "10 \<le> length xs")
    case True
    then obtain n where n: "length xs = n + 10" by (metis le_add_diff_inverse2)
    show ?thesis using Suc.IH [OF len] True n
      by (simp only: unroll) (simp add: min_def)
  next
    case False
    with Suc.prems have "k = 0" "length xs \<noteq> 0" by auto
    with False show ?thesis by (simp add: min_def)
  qed
qed

lemma chunk_at_take_drop: "chunk_at muts i = map posted (take 10 (drop i muts))"
  by (simp add: chunk_at_def slice_def chunkSize_def)

subsection \<open>A failed post\<close>

lemma post_rejected_step:
  "pc s = AwaitPost \<Longrightarrow>
     step en s PostRejected = (s\<lparr>pc := AwaitRetryTimer\<rparr>, [SetTimeout 1000])"
  by (simp add: on_post_rejected_def)

lemma retry_timer_step:
  "pc s = AwaitPost \<Longrightarrow>
     step en (s\<lparr>pc := AwaitRetryTimer\<rparr>) RetryTimer =
       (s, [Post (chunk_at (mutations s) (loop_i s))])"
  by (simp add: on_retry_timer_def)

lemma retry_rounds:
  "pc s = AwaitPost \<Longrightarrow>
     run en s (concat (replicate n [PostRejected, RetryTimer])) =
       (s, concat (replicate n [SetTimeout 1000, Post (chunk_at (mutations s) (loop_i s))]))"
  by (induction n) (simp_all add: post_rejected_step retry_timer_step del: step.simps)

lemma loop_position_changes:
  "loop_i (fst (step en s e)) \<noteq> loop_i s \<or> mutations (fst (step en s e)) \<noteq> mutations s \<Longrightarrow>
     (e = PostResolved \<and> pc s = AwaitPost) \<or> (e = AnimationFrame \<and> pc s = AwaitAnimationFrame)"
  by (cases e)
     (auto simp: loop_defs row_defs channel_defs addTodo_def Let_def
           split: option.splits prod.splits list.splits if_splits)

subsection \<open>One drain, posted chunk by chunk\<close>

lemma run_append:
  "run en s (xs @ ys) =
     (let (s1, out1) = run en s xs; (s2, out2) = run en s1 ys in (s2, out1 @ out2))"
  by (induction xs arbitrary: s) (simp_all add: split_beta del: step.simps)

lemma posts_append: "posts (xs @ ys) = posts xs @ posts ys"
  by (induction xs rule: posts.induct) simp_all

lemma posts_retries: "posts (concat (replicate n [SetTimeout d, Post c])) = replicate n c"
  by (induction n) simp_all

lemma run_attempts:
  assumes "pc s = AwaitPost"
  shows "run en s (attempts n) =
     (fst (step en s PostResolved),
      concat (replicate n [SetTimeout 1000, Post (chunk_at (mutations s) (loop_i s))])
        @ snd (step en s PostResolved))"
  by (simp add: attempts_def run_append retry_rounds [OF assms] split_beta del: step.simps)

lemma map_attempts_0: "concat (map (\<lambda>j. attempts 0) [0..<k]) = replicate k PostResolved"
  by (induction k) (simp_all add: attempts_def replicate_append_same)

lemma for_loop_run_retries:
  "(length (mutations s) - loop_i s + 9) div 10 = k \<Longrightarrow>
   for_loop s = (s', out) \<Longrightarrow>
   run en s' (concat (map (\<lambda>j. attempts (f j)) [0..<k])) = (s'', out') \<Longrightarrow>
     posts (out @ out') =
       concat (map (\<lambda>j. replicate (Suc (f j)) (chunk_at (mutations s) (loop_i s + 10 * j))) [0..<k])
     \<and> pc s'' = AwaitPauseTimer \<and> localMutations s'' = localMutations s
     \<and> mutations s'' = mutations s \<and> dirty s'' = dirty s"
proof (induction k arbitrary: s s' s'' out out' f)
  case 0
  then have "\<not> loop_i s < length (mutations s)" by auto
  with 0 show ?case by (auto simp: for_loop_def pause_def)
next
  case (Suc k)
  from Suc.prems(1) have lt: "loop_i s < length (mutations s)" by (auto intro: ccontr)
  let ?s2 = "s\<lparr>pc := AwaitPost, loop_i := loop_i s + 10\<rparr>"
  let ?c = "chunk_at (mutations s) (loop_i s)"
  let ?rest = "concat (map (\<lambda>j. attempts (f (Suc j))) [0..<k])"
  have s': "s' = s\<lparr>pc := AwaitPost\<rparr>" and out: "out = [Post ?c]"
    using Suc.prems(2) lt by (auto simp: for_loop_def)
  obtain s3 out3 where fl: "for_loop ?s2 = (s3, out3)" by (cases "for_loop ?s2") blast
  obtain s4 out4 where r: "run en s3 ?rest = (s4, out4)"
    by (cases "run en s3 ?rest") blast
  have len: "(length (mutations ?s2) - loop_i ?s2 + 9) div 10 = k"
    using Suc.prems(1) lt by simp
  have st: "step en s' PostResolved = (s3, out3)"
    using fl by (simp add: s' on_post_resolved_def chunkSize_def)
  have pcs': "pc s' = AwaitPost" by (simp add: s')
  have evs: "concat (map (\<lambda>j. attempts (f j)) [0..<Suc k]) = attempts (f 0) @ ?rest"
    by (simp add: upt_conv_Cons map_Suc_upt [symmetric] comp_def del: upt_Suc)
  have ra: "run en s' (attempts (f 0)) =
      (s3, concat (replicate (f 0) [SetTimeout 1000, Post ?c]) @ out3)"
    using run_attempts [OF pcs', of en "f 0"] st by (simp add: s' del: step.simps)
  have "run en s' (attempts (f 0) @ ?rest) =
      (s4, (concat (replicate (f 0) [SetTimeout 1000, Post ?c]) @ out3) @ out4)"
    by (simp add: run_append ra r del: step.simps)
  with Suc.prems(3) have o': "out' = (concat (replicate (f 0) [SetTimeout 1000, Post ?c]) @ out3) @ out4"
    and s'': "s'' = s4"
    by (simp_all only: evs prod.inject)
  note IH = Suc.IH [OF len fl r]
  have "posts (out @ out') = replicate (Suc (f 0)) ?c @ posts (out3 @ out4)"
    by (simp add: out o' posts_append posts_retries)
  also have "\<dots> = replicate (Suc (f 0)) ?c @
      concat (map (\<lambda>j. replicate (Suc (f (Suc j)))
         (chunk_at (mutations s) (loop_i s + 10 + 10 * j))) [0..<k])"
    using IH by simp
  also have "\<dots> = concat (map (\<lambda>j. replicate (Suc (f j))
         (chunk_at (mutations s) (loop_i s + 10 * j))) [0..<Suc k])"
    by (simp add: upt_conv_Cons map_Suc_upt [symmetric] add.assoc comp_def del: upt_Suc)
  finally have "posts (out @ out') = concat (map (\<lambda>j. replicate (Suc (f j))
         (chunk_at (mutations s) (loop_i s + 10 * j))) [0..<Suc k])" .
  moreover have "pc s'' = AwaitPauseTimer" "localMutations s'' = localMutations s"
      "mutations s'' = mutations s" "dirty s'' = dirty s"
    using IH by (simp_all add: s'')
  ultimately show ?case by blast
qed

lemma wake_run_retries:
  assumes "pc s = AwaitAnimationFrame"
    and "run en s (AnimationFrame #
           concat (map (\<lambda>j. attempts (f j)) [0..<(length (localMutations s) + 9) div 10]))
           = (s', out)"
  shows "posts out =
           concat (map (\<lambda>j. replicate (Suc (f j)) (chunk_at (localMutations s) (10 * j)))
             [0..<(length (localMutations s) + 9) div 10])
         \<and> pc s' = AwaitPauseTimer \<and> localMutations s' = []"
proof -
  let ?k = "(length (localMutations s) + 9) div 10"
  let ?evs = "concat (map (\<lambda>j. attempts (f j)) [0..<?k])"
  let ?s1 = "s\<lparr>mutations := localMutations s, localMutations := [], hasLocalMutations := False\<rparr>"
  show ?thesis
  proof (cases "localMutations s = []")
    case True
    with assms show ?thesis by (auto simp: loop_defs)
  next
    case False
    let ?s2 = "?s1\<lparr>dirty := True, loop_i := 0\<rparr>"
    obtain s3 out3 where fl: "for_loop ?s2 = (s3, out3)" by (cases "for_loop ?s2") blast
    obtain s4 out4 where r: "run en s3 ?evs = (s4, out4)"
      by (cases "run en s3 ?evs") blast
    have st: "step en s AnimationFrame = (s3, out3)"
      using fl False assms(1)
      by (simp add: on_animation_frame_def iteration_def drainAll_def Array_from_def new_Map_def)
    have o: "out = out3 @ out4" and s': "s' = s4"
      using assms(2) st r by (auto simp del: step.simps)
    have len: "(length (mutations ?s2) - loop_i ?s2 + 9) div 10 = ?k" by simp
    from for_loop_run_retries [OF len fl r] show ?thesis by (simp add: o s')
  qed
qed

lemma concat_singletons: "concat (map (\<lambda>j. [g j]) xs) = map g xs"
  by (induction xs) simp_all

lemma wake_run:
  assumes "pc s = AwaitAnimationFrame"
    and "run en s (AnimationFrame # replicate ((length (localMutations s) + 9) div 10) PostResolved)
           = (s', out)"
  shows "posts out =
           map (\<lambda>j. chunk_at (localMutations s) (10 * j)) [0..<(length (localMutations s) + 9) div 10]
         \<and> pc s' = AwaitPauseTimer \<and> localMutations s' = []"
  using wake_run_retries [OF assms(1), of en "\<lambda>j. 0" s' out] assms(2)
  by (simp only: map_attempts_0 replicate_Suc replicate_0 concat_singletons)

subsection \<open>Who clears \<open>dirty\<close>\<close>

lemma step_keeps_dirty:
  "\<not> is_message e \<Longrightarrow> dirty s \<Longrightarrow> dirty (fst (step en s e))"
  by (cases e)
     (auto simp: loop_defs row_defs channel_defs addTodo_def Let_def
           split: option.splits prod.splits list.splits if_splits)

lemma run_keeps_dirty:
  "\<forall>e \<in> set evs. \<not> is_message e \<Longrightarrow> dirty s \<Longrightarrow> dirty (fst (run en s evs))"
proof (induction evs arbitrary: s)
  case Nil
  then show ?case by simp
next
  case (Cons e evs)
  have "dirty (fst (step en s e))" using Cons.prems by (simp add: step_keeps_dirty)
  from Cons.IH [OF _ this] Cons.prems(1) show ?case
    by (simp add: split_beta del: step.simps)
qed

lemma dirty_cleared_by:
  "dirty s \<Longrightarrow> \<not> dirty (fst (step en s e)) \<Longrightarrow>
     \<exists>c d newData. e = EsMessage c d \<and> dispatches message_listener c s
        \<and> JSON_parse en d = Some newData"
  by (cases e)
     (auto simp: loop_defs row_defs channel_defs addTodo_def Let_def
           split: option.splits prod.splits list.splits if_splits)

subsection \<open>What one event does to the buffer\<close>

lemma step_buffer:
  "(pc s = AwaitAnimationFrame \<and> e = AnimationFrame \<longrightarrow>
      mutations (fst (step en s e)) = localMutations s \<and> localMutations (fst (step en s e)) = [])
   \<and> (\<not> (pc s = AwaitAnimationFrame \<and> e = AnimationFrame) \<longrightarrow>
      mutations (fst (step en s e)) = mutations s
      \<and> (localMutations (fst (step en s e)) = localMutations s
         \<or> (\<exists>k v. localMutations (fst (step en s e)) = record_edit k v (localMutations s))))"
  by (cases e)
     (auto simp: loop_defs row_defs channel_defs addTodo_def Let_def
           split: option.splits prod.splits list.splits if_splits)

lemma step_ops:
  "exec_ops (localMutations s) (ops_of en s e) =
     (localMutations (fst (step en s e)), drained en s [e])"
  by (cases e)
     (auto simp: loop_defs row_defs channel_defs addTodo_def Let_def
           split: option.splits prod.splits list.splits if_splits)

lemma drained_Cons: "drained en s (e # evs) = drained en s [e] @ drained en (fst (step en s e)) evs"
  by simp

lemma run_ops_exec:
  "exec_ops (localMutations s) (run_ops en s evs) =
     (localMutations (fst (run en s evs)), drained en s evs)"
proof (induction evs arbitrary: s)
  case Nil
  show ?case by simp
next
  case (Cons e evs)
  have r: "fst (run en s (e # evs)) = fst (run en (fst (step en s e)) evs)"
    by (simp add: split_beta del: step.simps)
  have "exec_ops (localMutations s) (ops_of en s e @ run_ops en (fst (step en s e)) evs) =
      (localMutations (fst (run en (fst (step en s e)) evs)),
       drained en s [e] @ drained en (fst (step en s e)) evs)"
    by (simp only: exec_ops_append step_ops Cons.IH Let_def prod.case)
  then show ?case by (simp only: run_ops.simps r drained_Cons [of en s e evs])
qed

subsection \<open>One entry per id\<close>

lemma filter_Map_set:
  "distinct (map fst m) \<Longrightarrow> filter (\<lambda>p. fst p = k) (Map_set k v m) = [(k, v)]"
proof (induction m)
  case Nil
  then show ?case by simp
next
  case (Cons a m)
  obtain k' v' where a: "a = (k', v')" by (cases a)
  show ?case
  proof (cases "k' = k")
    case True
    with Cons.prems have "k \<notin> fst ` set m" by (simp add: a)
    then have "filter (\<lambda>p. fst p = k) m = []"
      by (auto simp: filter_empty_conv)
    with True show ?thesis by (simp add: a)
  next
    case False
    with Cons show ?thesis by (simp add: a)
  qed
qed

lemma step_distinct_keys:
  "distinct (map fst (localMutations s)) \<Longrightarrow>
     distinct (map fst (localMutations (fst (step en s e))))"
  by (cases e)
     (auto simp: loop_defs row_defs channel_defs addTodo_def Let_def record_edit_def
             distinct_Map_set
           split: option.splits prod.splits list.splits if_splits)

lemma run_distinct_keys:
  "distinct (map fst (localMutations s)) \<Longrightarrow>
     distinct (map fst (localMutations (fst (run en s evs))))"
proof (induction evs arbitrary: s)
  case Nil
  then show ?case by simp
next
  case (Cons e evs)
  from Cons.IH [OF step_distinct_keys [OF Cons.prems, of en e]]
  show ?case by (simp add: split_beta del: step.simps)
qed

lemma mount_buffer_empty: "localMutations (fst (mount d)) = []"
  by (simp add: mount_def loop_defs)

subsection \<open>What a drain returns\<close>

lemma drain_window:
  assumes ops: "ops = pre @ map (\<lambda>(k, v). Record k v) w @ DrainAll # post"
    and pre: "pre = [] \<or> last pre = DrainAll"
  shows "distinct (map fst (snd (exec_ops [] ops) ! count_drains pre))
        \<and> map_of (snd (exec_ops [] ops) ! count_drains pre) = map_of (rev w)
        \<and> set (snd (exec_ops [] ops) ! count_drains pre) \<subseteq> set w"
proof -
  obtain m1 ds1 where e1: "exec_ops [] pre = (m1, ds1)"
    by (cases "exec_ops [] pre :: ('a \<times> 'b) list \<times> ('a \<times> 'b) list list") blast
  have m1: "m1 = []"
    using pre e1 exec_ops_last_drain [of pre "[]"] by (cases "pre = []") auto
  have l1: "length ds1 = count_drains pre"
    using length_exec_ops [of "[]" pre] e1 by simp
  obtain m2 ds2 where e2: "exec_ops [] (map (\<lambda>(k, v). Record k v) w) = (m2, ds2)"
    by (cases "exec_ops [] (map (\<lambda>(k, v). Record k v) w) :: ('a \<times> 'b) list \<times> ('a \<times> 'b) list list")
      blast
  note w = exec_ops_records [OF e2]
  obtain m3 ds3 where e3: "exec_ops [] post = (m3, ds3)"
    by (cases "exec_ops [] post :: ('a \<times> 'b) list \<times> ('a \<times> 'b) list list") blast
  have "snd (exec_ops [] ops) = ds1 @ m2 # ds3"
    using e1 e2 e3 w
    by (simp add: ops m1 exec_ops_append drainAll_def Array_from_def new_Map_def)
  then have "snd (exec_ops [] ops) ! count_drains pre = m2"
    by (simp add: l1 [symmetric])
  with w show ?thesis by simp
qed

lemma drains_disjoint:
  assumes "distinct (records_of ops)" "i < j" "j < length (snd (exec_ops [] ops))"
  shows "set (snd (exec_ops [] ops) ! i) \<inter> set (snd (exec_ops [] ops) ! j) = {}"
proof -
  have "distinct (concat (snd (exec_ops [] ops)))"
    using exec_ops_distinct [of "[]" ops "fst (exec_ops [] ops)" "snd (exec_ops [] ops)"] assms(1)
    by simp
  then show ?thesis using assms(2,3) by (rule distinct_concat_nth)
qed

lemma mount_run_ops:
  "exec_ops [] (run_ops en (fst (mount d)) evs) =
     (localMutations (fst (run en (fst (mount d)) evs)), drained en (fst (mount d)) evs)"
  using run_ops_exec [of "fst (mount d)" en evs] by (simp only: mount_buffer_empty)

subsection \<open>Evaluating runs of the examples\<close>

lemmas eval_defs = mount_def loop_defs row_defs channel_defs example_env_def example_list_def
  example_item_def render_rows_def render_row_def row_key_def dispatches_def addTodo_def
  record_edit_def view_controls_def edit_controls_def chunk_at_def slice_def chunkSize_def
  posted_def

subsection \<open>The listeners of the live channel\<close>

lemma snapshot_applied:
  "dispatches message_listener c s \<Longrightarrow> JSON_parse en d = Some newData \<Longrightarrow>
     data (fst (step en s (EsMessage c d))) = newData
     \<and> \<not> dirty (fst (step en s (EsMessage c d)))
     \<and> \<not> adding (fst (step en s (EsMessage c d)))"
  by (simp add: on_message_def)

lemma reconnected_source_is_deaf:
  assumes "backoff_timers s \<noteq> []"
  shows "step en (fst (step en s BackoffTimer)) (EsMessage (es (fst (step en s BackoffTimer))) d)
           = (fst (step en s BackoffTimer), [])"
    and "step en (fst (step en s BackoffTimer)) (EsError (es (fst (step en s BackoffTimer))))
           = (fst (step en s BackoffTimer), [])"
  using assms by (auto simp: on_backoff_elapsed_def dispatches_def split: list.splits)

lemma listeners_after_close:
  "message_listener (xs[i := (xs ! i)\<lparr>closed := True\<rparr>] ! j) = message_listener (xs ! j)
   \<and> error_listener (xs[i := (xs ! i)\<lparr>closed := True\<rparr>] ! j) = error_listener (xs ! j)"
proof (cases "i = j")
  case True
  then show ?thesis by (cases "i < length xs") (simp_all add: list_update_beyond)
next
  case False
  then show ?thesis by simp
qed

lemma step_only_first_listens:
  "only_first_listens s \<Longrightarrow> only_first_listens (fst (step en s e))"
proof (cases e)
  case (EsError c)
  assume "only_first_listens s"
  then show ?thesis
    by (auto simp: EsError only_first_listens_def on_error_def Let_def listeners_after_close)
next
  case BackoffTimer
  assume "only_first_listens s"
  then show ?thesis
    by (auto simp: BackoffTimer only_first_listens_def on_backoff_elapsed_def nth_append
             split: list.splits)
qed (auto simp: only_first_listens_def loop_defs row_defs on_message_def addTodo_def Let_def
          split: option.splits prod.splits list.splits if_splits)

lemma run_only_first_listens:
  "only_first_listens s \<Longrightarrow> only_first_listens (fst (run en s evs))"
proof (induction evs arbitrary: s)
  case Nil
  then show ?case by simp
next
  case (Cons e evs)
  from Cons.IH [OF step_only_first_listens [OF Cons.prems, of en e]]
  show ?case by (simp add: split_beta del: step.simps)
qed

lemma no_listener_after_first_source:
  "dispatches message_listener c (fst (run en (fst (mount d)) evs))
     \<or> dispatches error_listener c (fst (run en (fst (mount d)) evs)) \<Longrightarrow> c = 0"
proof -
  have "only_first_listens (fst (mount d))"
    by (auto simp: only_first_listens_def mount_def loop_defs)
  from run_only_first_listens [OF this, of en evs]
  show "dispatches message_listener c (fst (run en (fst (mount d)) evs))
     \<or> dispatches error_listener c (fst (run en (fst (mount d)) evs)) \<Longrightarrow> c = 0"
    by (auto simp: only_first_listens_def dispatches_def)
qed

subsection \<open>Rounding of JavaScript numbers\<close>

lemma rhe_bounds: "\<lfloor>q\<rfloor> \<le> round_half_even q \<and> round_half_even q \<le> \<lceil>q\<rceil>"
  by (auto simp: round_half_even_def Let_def ceiling_altdef)

lemma expo_ge_one:
  assumes "2 ^ n \<le> \<bar>x\<bar>" "\<bar>x\<bar> < 2 ^ Suc n"
  shows "expo x = int n"
proof -
  have x1: "1 \<le> \<bar>x\<bar>" using assms(1) one_le_power [of "2::rat" n] by linarith
  have lo: "(2::int) ^ n \<le> \<lfloor>\<bar>x\<bar>\<rfloor>"
    using assms(1) by (simp add: le_floor_iff)
  have hi: "\<lfloor>\<bar>x\<bar>\<rfloor> < (2::int) ^ Suc n"
    using assms(2) by (simp add: floor_less_iff)
  have "bitlen \<lfloor>\<bar>x\<bar>\<rfloor> \<le> int (Suc n)"
    using hi by (simp add: bitlen_le_iff_power nat_add_distrib)
  moreover have "int (Suc n) \<le> bitlen \<lfloor>\<bar>x\<bar>\<rfloor>"
    using lo by (simp add: bitlen_ge_iff_power nat_add_distrib)
  ultimately have "bitlen \<lfloor>\<bar>x\<bar>\<rfloor> = int n + 1" by simp
  with x1 show ?thesis by (auto simp: expo_def)
qed

lemma expo_le:
  assumes "\<bar>x\<bar> < 2 ^ Suc n"
  shows "expo x \<le> int n"
proof (cases "1 \<le> \<bar>x\<bar>")
  case True
  have "\<lfloor>\<bar>x\<bar>\<rfloor> < (2::int) ^ Suc n"
    using assms by (simp add: floor_less_iff)
  then have "bitlen \<lfloor>\<bar>x\<bar>\<rfloor> \<le> int (Suc n)"
    by (simp add: bitlen_le_iff_power nat_add_distrib)
  with True show ?thesis by (auto simp: expo_def)
next
  case False
  then show ?thesis using bitlen_nonneg [of "\<lceil>1 / \<bar>x\<bar>\<rceil> - 1"] by (auto simp: expo_def)
qed


lemma expo_lt_one:
  assumes "1 / 2 ^ Suc n \<le> \<bar>x\<bar>" "\<bar>x\<bar> < 1 / 2 ^ n" "int (Suc n) \<le> 1022"
  shows "expo x = - int (Suc n)"
proof -
  let ?a = "\<bar>x\<bar>"
  have "(0::rat) < 1 / 2 ^ Suc n" by simp
  with assms(1) have pos: "0 < ?a" by linarith
  have "(1::rat) / 2 ^ n \<le> 1" by (simp add: field_simps)
  with assms(2) have lt1: "?a < 1" by linarith
  have up: "1 / ?a \<le> 2 ^ Suc n"
    using assms(1) pos by (simp add: field_simps)
  have lo: "2 ^ n < 1 / ?a"
    using assms(2) pos by (simp add: field_simps)
  have c_hi: "\<lceil>1 / ?a\<rceil> \<le> (2::int) ^ Suc n"
    using up by (simp add: ceiling_le_iff)
  have c_lo: "(2::int) ^ n < \<lceil>1 / ?a\<rceil>"
    using lo by (simp add: less_ceiling_iff)
  have "bitlen (\<lceil>1 / ?a\<rceil> - 1) \<le> int (Suc n)"
    using c_hi by (simp add: bitlen_le_iff_power nat_add_distrib)
  moreover have "int (Suc n) \<le> bitlen (\<lceil>1 / ?a\<rceil> - 1)"
    using c_lo by (simp add: bitlen_ge_iff_power nat_add_distrib)
  ultimately have "bitlen (\<lceil>1 / ?a\<rceil> - 1) = int (Suc n)" by simp
  then show ?thesis using pos lt1 assms(3) by (simp add: expo_def)
qed


lemma ulp_pos: "0 < ulp x"
  by (simp add: ulp_def)

lemma round_between:
  assumes "a \<le> x" "x \<le> b" "a = of_int ka * ulp x" "b = of_int kb * ulp x"
  shows "a \<le> double_round x \<and> double_round x \<le> b"
proof -
  let ?q = "x / ulp x"
  have "of_int ka \<le> ?q"
    using assms(1,3) ulp_pos [of x] by (simp add: pos_le_divide_eq)
  then have "ka \<le> \<lfloor>?q\<rfloor>" by (simp add: le_floor_iff)
  then have lo: "ka \<le> round_half_even ?q" using rhe_bounds [of ?q] by linarith
  have "?q \<le> of_int kb"
    using assms(2,4) ulp_pos [of x] by (simp add: pos_divide_le_eq)
  then have "\<lceil>?q\<rceil> \<le> kb" by (simp add: ceiling_le_iff)
  then have hi: "round_half_even ?q \<le> kb" using rhe_bounds [of ?q] by linarith
  have "of_int ka * ulp x \<le> of_int (round_half_even ?q) * ulp x"
    using lo ulp_pos [of x] by (simp add: mult_right_mono)
  moreover have "of_int (round_half_even ?q) * ulp x \<le> of_int kb * ulp x"
    using hi ulp_pos [of x] by (simp add: mult_right_mono)
  ultimately show ?thesis by (simp add: double_round_def assms(3,4))
qed

lemma int_on_grid:
  assumes "expo x \<le> 52"
  shows "of_int n = of_int (n * 2 ^ nat (52 - expo x)) * ulp x"
proof -
  have "(2::rat) ^ nat (52 - expo x) = power_int 2 (52 - expo x)"
    using assms by (simp add: power_int_nonneg_exp)
  then have "(2::rat) ^ nat (52 - expo x) * ulp x = power_int 2 ((52 - expo x) + (expo x - 52))"
    by (simp only: ulp_def power_int_add [of "2::rat", simplified])
  then have "(2::rat) ^ nat (52 - expo x) * ulp x = 1" by simp
  then show ?thesis by (simp add: mult.assoc)
qed

lemma round_between_ints:
  assumes "of_int a \<le> x" "x \<le> of_int b" "\<bar>x\<bar> < 2 ^ 53"
  shows "of_int a \<le> double_round x \<and> double_round x \<le> of_int b"
proof -
  have "expo x \<le> 52" using expo_le [of x 52] assms(3) by simp
  from round_between [OF assms(1,2) int_on_grid [OF this] int_on_grid [OF this]]
  show ?thesis .
qed

lemma backoff_delay_bounds:
  assumes "0 \<le> r" "r < 1"
  shows "10000 \<le> backoff_delay r \<and> backoff_delay r \<le> 15000"
proof -
  have x1: "of_int 0 \<le> r * 5000" "r * 5000 \<le> of_int 5000" "\<bar>r * 5000\<bar> < 2 ^ 53"
    using assms by simp_all
  from round_between_ints [OF x1]
  have m: "0 \<le> js_mul r 5000" "js_mul r 5000 \<le> 5000" by (simp_all add: js_mul_def)
  have x2: "of_int 10000 \<le> 10000 + js_mul r 5000" "10000 + js_mul r 5000 \<le> of_int 15000"
    "\<bar>10000 + js_mul r 5000\<bar> < 2 ^ 53"
    using m by simp_all
  from round_between_ints [OF x2]
  show ?thesis by (simp add: backoff_delay_def js_add_def)
qed

lemma rhe_down: "of_int f \<le> q \<Longrightarrow> q < of_int f + 1 / 2 \<Longrightarrow> round_half_even q = f"
proof -
  assume a: "of_int f \<le> q" "q < of_int f + 1 / 2"
  then have "\<lfloor>q\<rfloor> = f" by (intro floor_unique) auto
  with a show ?thesis by (simp add: round_half_even_def Let_def)
qed

lemma rhe_up: "of_int f + 1 / 2 < q \<Longrightarrow> q < of_int f + 1 \<Longrightarrow> round_half_even q = f + 1"
proof -
  assume a: "of_int f + 1 / 2 < q" "q < of_int f + 1"
  then have "\<lfloor>q\<rfloor> = f" by (intro floor_unique) auto
  with a show ?thesis by (simp add: round_half_even_def Let_def)
qed

lemma rhe_tie_odd: "q = of_int f + 1 / 2 \<Longrightarrow> odd f \<Longrightarrow> round_half_even q = f + 1"
proof -
  assume a: "q = of_int f + 1 / 2" "odd f"
  then have "\<lfloor>q\<rfloor> = f" by (intro floor_unique) auto
  with a show ?thesis by (simp add: round_half_even_def Let_def)
qed


lemma mul_at_edge_53: "js_mul (1 - 1 / 2 ^ 53) 5000 = 5497558138879999 / 2 ^ 40"
proof -
  let ?x = "(1 - 1 / 2 ^ 53) * 5000 :: rat"
  have e: "expo ?x = 12" using expo_ge_one [of 12 ?x] by simp
  have u: "ulp ?x = 1 / 2 ^ 40" unfolding ulp_def e by (simp add: power_int_minus_divide)
  have r: "round_half_even (?x / (1 / 2 ^ 40)) = 5497558138879999"
    by (rule rhe_down) simp_all
  show ?thesis unfolding js_mul_def double_round_def u r by simp
qed

lemma add_at_edge: "js_add 10000 (5497558138879999 / 2 ^ 40) = 15000"
proof -
  let ?x = "10000 + 5497558138879999 / 2 ^ 40 :: rat"
  have e: "expo ?x = 13" using expo_ge_one [of 13 ?x] by simp
  have u: "ulp ?x = 1 / 2 ^ 39" unfolding ulp_def e by (simp add: power_int_minus_divide)
  have r: "round_half_even (?x / (1 / 2 ^ 39)) = 8246337208319999 + 1"
    by (rule rhe_tie_odd) simp_all
  show ?thesis unfolding js_add_def double_round_def u r by simp
qed

lemma edge_53_is_double: "double_round (1 - 1 / 2 ^ 53) = 1 - 1 / 2 ^ 53"
proof -
  let ?x = "1 - 1 / 2 ^ 53 :: rat"
  have e: "expo ?x = - int (Suc 0)" by (rule expo_lt_one) simp_all
  have u: "ulp ?x = 1 / 2 ^ 53" unfolding ulp_def e by (simp add: power_int_minus_divide)
  have r: "round_half_even (?x / (1 / 2 ^ 53)) = 2 ^ 53 - 1"
    by (rule rhe_down) simp_all
  show ?thesis unfolding double_round_def u r by simp
qed

lemma mul_at_edge_52: "js_mul (1 - 1 / 2 ^ 52) 5000 = 5497558138879999 / 2 ^ 40"
proof -
  let ?x = "(1 - 1 / 2 ^ 52) * 5000 :: rat"
  have e: "expo ?x = 12" using expo_ge_one [of 12 ?x] by simp
  have u: "ulp ?x = 1 / 2 ^ 40" unfolding ulp_def e by (simp add: power_int_minus_divide)
  have r: "round_half_even (?x / (1 / 2 ^ 40)) = 5497558138879998 + 1"
    by (rule rhe_up) simp_all
  show ?thesis unfolding js_mul_def double_round_def u r by simp
qed

lemma edge_52_is_double: "double_round (1 - 1 / 2 ^ 52) = 1 - 1 / 2 ^ 52"
proof -
  let ?x = "1 - 1 / 2 ^ 52 :: rat"
  have e: "expo ?x = - int (Suc 0)" by (rule expo_lt_one) simp_all
  have u: "ulp ?x = 1 / 2 ^ 53" unfolding ulp_def e by (simp add: power_int_minus_divide)
  have r: "round_half_even (?x / (1 / 2 ^ 53)) = 2 ^ 53 - 2"
    by (rule rhe_down) simp_all
  show ?thesis unfolding double_round_def u r by simp
qed

section \<open>The claims\<close>

subsection \<open>C1: no edit is lost and none is drained twice\<close>

text \<open>
  Claim C1. The buffer starts empty (line 15).
  \<^item> \<^verbatim>\<open>saveTodo\<close> is a record call: it leaves the buffer as recording the two fields it
    was given under the item's id does; \<^verbatim>\<open>addTodo\<close>, with text in the input, is a
    record call of that text under the generated id.
  \<^item> One event does to the buffer exactly the record call or drain that \<open>ops_of\<close>
    gives for it, and nothing else: the wake-up of the sync loop hands the whole buffer
    to the loop and leaves it empty; every other event, also while a submission is under
    way, leaves the batch of the loop alone. So the buffer a run from mounting ends with
    and the batches the loop took in it are exactly those of the sequence of record
    calls and drains the run made.
  \<^item> Take any sequence \<open>ops\<close> of record calls and drains run from the empty buffer. If
    \<open>w\<close> are the records between one drain (or the start) and the next drain, that
    next drain returns, for every id recorded in \<open>w\<close>, exactly the edit recorded last
    for it, one entry per id, and nothing that was not recorded in \<open>w\<close>: an edit
    recorded before the swap is in this batch, an edit recorded after it is in the
    next one, and nothing is carried over from the batch before. When the recorded
    edits differ from each other (each record call counted as an edit of its own), no
    edit is in the results of two drains, consecutive or not.
  \<^item> The same of the component: in every run from mounting, the batch the loop takes at
    a wake-up holds exactly the last edit of each id that the handlers recorded since
    the wake-up before, and no recorded edit is in two batches.
\<close>

theorem drains_take_every_edit_once:
  "localMutations (saveTodo item t c s) =
     record_edit (item_id item) \<lparr>mut_text = t, mut_completed = c\<rparr> (localMutations s)
   \<and> (addTodoInput s \<noteq> [] \<longrightarrow>
        localMutations (addTodo en s) =
          record_edit (generateItemId en (idCalls s))
            \<lparr>mut_text = Some (addTodoInput s), mut_completed = False\<rparr> (localMutations s))
   \<and> exec_ops (localMutations s) (ops_of en s e) =
        (localMutations (fst (step en s e)), drained en s [e])
   \<and> (pc s = AwaitAnimationFrame \<and> e = AnimationFrame \<longrightarrow>
        mutations (fst (step en s e)) = localMutations s
        \<and> localMutations (fst (step en s e)) = [])
   \<and> (\<not> (pc s = AwaitAnimationFrame \<and> e = AnimationFrame) \<longrightarrow>
        mutations (fst (step en s e)) = mutations s)
   \<and> exec_ops [] (run_ops en (fst (mount d)) evs) =
        (localMutations (fst (run en (fst (mount d)) evs)), drained en (fst (mount d)) evs)
   \<and> (ops = pre @ map (\<lambda>(k, v). Record k v) w @ DrainAll # post \<and> (pre = [] \<or> last pre = DrainAll)
      \<longrightarrow> distinct (map fst (snd (exec_ops [] ops) ! count_drains pre))
        \<and> map_of (snd (exec_ops [] ops) ! count_drains pre) = map_of (rev w)
        \<and> set (snd (exec_ops [] ops) ! count_drains pre) \<subseteq> set w)
   \<and> (distinct (records_of ops) \<and> i < j \<and> j < length (snd (exec_ops [] ops))
      \<longrightarrow> set (snd (exec_ops [] ops) ! i) \<inter> set (snd (exec_ops [] ops) ! j) = {})
   \<and> (run_ops en (fst (mount d)) evs = pre' @ map (\<lambda>(k, v). Record k v) w' @ DrainAll # post'
        \<and> (pre' = [] \<or> last pre' = DrainAll)
      \<longrightarrow> distinct (map fst (drained en (fst (mount d)) evs ! count_drains pre'))
        \<and> map_of (drained en (fst (mount d)) evs ! count_drains pre') = map_of (rev w')
        \<and> set (drained en (fst (mount d)) evs ! count_drains pre') \<subseteq> set w')
   \<and> (distinct (records_of (run_ops en (fst (mount d)) evs)) \<and> i' < j'
        \<and> j' < length (drained en (fst (mount d)) evs)
      \<longrightarrow> set (drained en (fst (mount d)) evs ! i') \<inter> set (drained en (fst (mount d)) evs ! j') = {})"
proof -
  let ?rops = "run_ops en (fst (mount d)) evs"
  let ?dr = "drained en (fst (mount d)) evs"
  have dr: "snd (exec_ops [] ?rops) = ?dr"
    by (simp only: mount_run_ops snd_conv)
  have save: "localMutations (saveTodo item t c s) =
     record_edit (item_id item) \<lparr>mut_text = t, mut_completed = c\<rparr> (localMutations s)"
    by (simp add: saveTodo_def)
  have add: "localMutations (addTodo en s) =
          record_edit (generateItemId en (idCalls s))
            \<lparr>mut_text = Some (addTodoInput s), mut_completed = False\<rparr> (localMutations s)"
    if "addTodoInput s \<noteq> []"
    using that by (simp add: addTodo_def Let_def)
  have wake: "mutations (fst (step en s e)) = localMutations s
        \<and> localMutations (fst (step en s e)) = []"
    if "pc s = AwaitAnimationFrame \<and> e = AnimationFrame"
    using that step_buffer [of s e en] by blast
  have batch: "mutations (fst (step en s e)) = mutations s"
    if "\<not> (pc s = AwaitAnimationFrame \<and> e = AnimationFrame)"
    using that step_buffer [of s e en] by blast
  have window: "distinct (map fst (?dr ! count_drains pre'))
        \<and> map_of (?dr ! count_drains pre') = map_of (rev w')
        \<and> set (?dr ! count_drains pre') \<subseteq> set w'"
    if "?rops = pre' @ map (\<lambda>(k, v). Record k v) w' @ DrainAll # post'"
      "pre' = [] \<or> last pre' = DrainAll"
    using drain_window [OF that] by (simp only: dr)
  have once: "set (?dr ! i') \<inter> set (?dr ! j') = {}"
    if "distinct (records_of ?rops)" "i' < j'" "j' < length ?dr"
    using drains_disjoint [of ?rops i' j'] that by (simp only: dr)
  show ?thesis
    using save add step_ops [of s en e] wake batch mount_run_ops [of en d evs]
      drain_window [of ops pre w post] drains_disjoint [of ops i j] window once
    by blast
qed

text \<open>
  The theorem at work. An item is added and the loop wakes and posts it; while that post
  is outstanding the checkbox of \<open>x\<close> is ticked; the post succeeds and the loop wakes
  again. The first batch is the added item, the second is the edit of \<open>x\<close>, made during
  the submission of the first, and no edit is in both.
\<close>

theorem drains_take_every_edit_once_witness:
  "run_ops example_env (fst (mount example_list))
      [TypeNewTask ''eggs'', ClickAdd, PauseTimer, AnimationFrame, ChangeCompleted ''x:1'' True,
       PostResolved, PauseTimer, AnimationFrame]
     = [Record ''i'' \<lparr>mut_text = Some ''eggs'', mut_completed = False\<rparr>, DrainAll,
        Record ''x'' \<lparr>mut_text = Some ''milk'', mut_completed = True\<rparr>, DrainAll]
   \<and> pc (fst (run example_env (fst (mount example_list))
        [TypeNewTask ''eggs'', ClickAdd, PauseTimer, AnimationFrame])) = AwaitPost
   \<and> drained example_env (fst (mount example_list))
      [TypeNewTask ''eggs'', ClickAdd, PauseTimer, AnimationFrame, ChangeCompleted ''x:1'' True,
       PostResolved, PauseTimer, AnimationFrame]
     = [[(''i'', \<lparr>mut_text = Some ''eggs'', mut_completed = False\<rparr>)],
        [(''x'', \<lparr>mut_text = Some ''milk'', mut_completed = True\<rparr>)]]
   \<and> map_of (drained example_env (fst (mount example_list))
      [TypeNewTask ''eggs'', ClickAdd, PauseTimer, AnimationFrame, ChangeCompleted ''x:1'' True,
       PostResolved, PauseTimer, AnimationFrame] ! 1)
     = map_of (rev [(''x'', \<lparr>mut_text = Some ''milk'', mut_completed = True\<rparr>)])
   \<and> set (drained example_env (fst (mount example_list))
      [TypeNewTask ''eggs'', ClickAdd, PauseTimer, AnimationFrame, ChangeCompleted ''x:1'' True,
       PostResolved, PauseTimer, AnimationFrame] ! 0)
     \<inter> set (drained example_env (fst (mount example_list))
      [TypeNewTask ''eggs'', ClickAdd, PauseTimer, AnimationFrame, ChangeCompleted ''x:1'' True,
       PostResolved, PauseTimer, AnimationFrame] ! 1) = {}
   \<and> localMutations (fst (run example_env (fst (mount example_list))
      [TypeNewTask ''eggs'', ClickAdd, PauseTimer, AnimationFrame, ChangeCompleted ''x:1'' True,
       PostResolved, PauseTimer, AnimationFrame])) = []
   \<and> localMutations (saveTodo example_item None True (fst (mount example_list)))
     = [(''x'', \<lparr>mut_text = None, mut_completed = True\<rparr>)]
   \<and> snd (exec_ops [] [Record ''a'' (1::nat), Record ''b'' 2, Record ''a'' 3, DrainAll,
       Record ''a'' 4, DrainAll]) ! 1 = [(''a'', 4)]"
proof -
  let ?evs = "[TypeNewTask ''eggs'', ClickAdd, PauseTimer, AnimationFrame,
       ChangeCompleted ''x:1'' True, PostResolved, PauseTimer, AnimationFrame]"
  let ?s0 = "fst (mount example_list)"
  let ?e1 = "\<lparr>mut_text = Some ''eggs'', mut_completed = False\<rparr>"
  let ?e2 = "\<lparr>mut_text = Some ''milk'', mut_completed = True\<rparr>"
  let ?gen = "[Record ''a'' (1::nat), Record ''b'' 2, Record ''a'' 3, DrainAll,
       Record ''a'' 4, DrainAll]"
  have rops: "run_ops example_env ?s0 ?evs =
      [Record ''i'' ?e1, DrainAll, Record ''x'' ?e2, DrainAll]"
    by (simp add: eval_defs Let_def)
  have during: "pc (fst (run example_env ?s0
        [TypeNewTask ''eggs'', ClickAdd, PauseTimer, AnimationFrame])) = AwaitPost"
    by (simp add: eval_defs Let_def)
  have split: "run_ops example_env ?s0 ?evs =
      [Record ''i'' ?e1, DrainAll] @ map (\<lambda>(k, v). Record k v) [(''x'', ?e2)] @ DrainAll # []"
    by (simp only: rops) simp
  have gsplit: "?gen = [Record ''a'' 1, Record ''b'' 2, Record ''a'' 3, DrainAll]
      @ map (\<lambda>(k, v). Record k v) [(''a'', 4)] @ DrainAll # []"
    by simp
  have cnt: "count_drains [Record ''i'' ?e1, DrainAll] = 1"
    "count_drains [Record ''a'' (1::nat), Record ''b'' 2, Record ''a'' 3, DrainAll] = 1"
    by simp_all
  have lastd: "[Record ''i'' ?e1, DrainAll] = [] \<or> last [Record ''i'' ?e1, DrainAll] = DrainAll"
    "[Record ''a'' (1::nat), Record ''b'' 2, Record ''a'' 3, DrainAll] = []
      \<or> last [Record ''a'' (1::nat), Record ''b'' 2, Record ''a'' 3, DrainAll] = DrainAll"
    by simp_all
  have dist: "distinct (records_of (run_ops example_env ?s0 ?evs))"
    by (simp only: rops) simp
  note t = drains_take_every_edit_once [where item = example_item and t = None and c = True
      and s = ?s0 and en = example_env and e = AnimationFrame and d = example_list
      and evs = ?evs and ops = ?gen
      and pre = "[Record ''a'' 1, Record ''b'' 2, Record ''a'' 3, DrainAll]"
      and w = "[(''a'', 4)]" and post = "[]" and i = 0 and j = 1
      and pre' = "[Record ''i'' ?e1, DrainAll]" and w' = "[(''x'', ?e2)]" and post' = "[]"
      and i' = 0 and j' = 1]
  have ex: "exec_ops [] (run_ops example_env ?s0 ?evs) =
      (localMutations (fst (run example_env ?s0 ?evs)), drained example_env ?s0 ?evs)"
    using t by blast
  have "exec_ops [] [Record ''i'' ?e1, DrainAll, Record ''x'' ?e2, DrainAll] =
      ([], [[(''i'', ?e1)], [(''x'', ?e2)]])"
    by (simp add: record_edit_def drainAll_def Array_from_def new_Map_def)
  with ex have "drained example_env ?s0 ?evs = [[(''i'', ?e1)], [(''x'', ?e2)]]"
    and buf: "localMutations (fst (run example_env ?s0 ?evs)) = []"
    by (simp_all only: rops prod.inject)
  have dr: "drained example_env ?s0 ?evs = [[(''i'', ?e1)], [(''x'', ?e2)]]"
    by (simp add: eval_defs Let_def)
  have len: "(1::nat) < length (drained example_env ?s0 ?evs)" "(0::nat) < 1"
    by (simp_all only: dr) simp_all
  have m: "map_of (drained example_env ?s0 ?evs ! count_drains [Record ''i'' ?e1, DrainAll])
      = map_of (rev [(''x'', ?e2)])"
    using t split lastd(1) by blast
  have dj: "set (drained example_env ?s0 ?evs ! 0) \<inter> set (drained example_env ?s0 ?evs ! 1) = {}"
    using t dist len by blast
  have sv: "localMutations (saveTodo example_item None True ?s0) =
      record_edit (item_id example_item) \<lparr>mut_text = None, mut_completed = True\<rparr>
        (localMutations ?s0)"
    using t by blast
  have sv': "localMutations (saveTodo example_item None True ?s0)
     = [(''x'', \<lparr>mut_text = None, mut_completed = True\<rparr>)]"
    by (simp only: sv mount_buffer_empty) (simp add: record_edit_def example_item_def)
  have g: "map_of (snd (exec_ops [] ?gen)
        ! count_drains [Record ''a'' (1::nat), Record ''b'' 2, Record ''a'' 3, DrainAll])
      = map_of (rev [(''a'', 4)])"
    using t gsplit lastd(2) by blast
  have g': "snd (exec_ops [] ?gen) ! 1 = [(''a'', 4)]"
    by (simp add: record_edit_def drainAll_def Array_from_def new_Map_def)
  have m': "map_of (drained example_env ?s0 ?evs ! 1) = map_of (rev [(''x'', ?e2)])"
    using m by (simp only: cnt)
  show ?thesis using rops during dr m' dj buf sv' g' by blast
qed

subsection \<open>C2: chunks of ten, one after the other\<close>

text \<open>
  Claim C2. When the sync loop wakes with \<open>n\<close> edits in the buffer and every post
  succeeds, it posts the chunks \<open>[10 * j, 10 * j + 10)\<close> of the drained sequence for
  \<open>j = 0, 1, \<dots>\<close> and then pauses: the chunks put together are the drained sequence in
  its order, their sizes are \<open>n div 10\<close> times ten and then \<open>n mod 10\<close> when that is not
  zero, and while a post is outstanding no event but the success of that post makes
  the loop post anything. When the post of chunk \<open>j\<close> fails \<open>f j\<close> times before it
  succeeds, chunk \<open>j\<close> is posted \<open>f j + 1\<close> times and the chunks still go out in
  their order. The witness drains 23 edits: three posts, of sizes 10, 10, 3.
\<close>

theorem sync_loop_chunks:
  "(pc s = AwaitAnimationFrame \<longrightarrow>
      (let muts = localMutations s; n = length muts;
           out = snd (run en s (AnimationFrame # replicate ((n + 9) div 10) PostResolved))
       in posts out = map (\<lambda>j. chunk_at muts (10 * j)) [0..<(n + 9) div 10]
          \<and> concat (posts out) = map posted muts
          \<and> map length (posts out) =
               replicate (n div 10) 10 @ (if n mod 10 = 0 then [] else [n mod 10])
          \<and> pc (fst (run en s (AnimationFrame # replicate ((n + 9) div 10) PostResolved)))
               = AwaitPauseTimer
          \<and> posts (snd (run en s
                 (AnimationFrame # concat (map (\<lambda>j. attempts (f j)) [0..<(n + 9) div 10]))))
               = concat (map (\<lambda>j. replicate (Suc (f j)) (chunk_at muts (10 * j)))
                   [0..<(n + 9) div 10])))
   \<and> (pc s = AwaitPost \<and> e \<noteq> PostResolved \<longrightarrow> posts (snd (step en s e)) = [])"
proof -
  let ?muts = "localMutations s"
  let ?k = "(length ?muts + 9) div 10"
  let ?r = "run en s (AnimationFrame # replicate ?k PostResolved)"
  have loop: "posts (snd ?r) = map (\<lambda>j. chunk_at ?muts (10 * j)) [0..<?k]
      \<and> concat (posts (snd ?r)) = map posted ?muts
      \<and> map length (posts (snd ?r)) =
           replicate (length ?muts div 10) 10
             @ (if length ?muts mod 10 = 0 then [] else [length ?muts mod 10])
      \<and> pc (fst ?r) = AwaitPauseTimer
      \<and> posts (snd (run en s (AnimationFrame # concat (map (\<lambda>j. attempts (f j)) [0..<?k]))))
           = concat (map (\<lambda>j. replicate (Suc (f j)) (chunk_at ?muts (10 * j))) [0..<?k])"
    if pc: "pc s = AwaitAnimationFrame"
  proof -
    have retries:
      "posts (snd (run en s (AnimationFrame # concat (map (\<lambda>j. attempts (f j)) [0..<?k]))))
         = concat (map (\<lambda>j. replicate (Suc (f j)) (chunk_at ?muts (10 * j))) [0..<?k])"
      using wake_run_retries [OF pc, of en f
          "fst (run en s (AnimationFrame # concat (map (\<lambda>j. attempts (f j)) [0..<?k])))"
          "snd (run en s (AnimationFrame # concat (map (\<lambda>j. attempts (f j)) [0..<?k])))"]
      by simp
    have w: "posts (snd ?r) = map (\<lambda>j. chunk_at ?muts (10 * j)) [0..<?k]"
      "pc (fst ?r) = AwaitPauseTimer"
      using wake_run [OF pc, of en "fst ?r" "snd ?r"] by simp_all
    have eq: "map (\<lambda>j. chunk_at ?muts (10 * j)) [0..<?k] =
        map (map posted) (map (\<lambda>j. take 10 (drop (10 * j) ?muts)) [0..<?k])"
      by (simp add: chunk_at_take_drop)
    have "concat (posts (snd ?r)) = map posted ?muts"
      by (simp only: w eq map_concat [symmetric] chunks_concat [OF refl])
    moreover have "map length (map (map posted) (map (\<lambda>j. take 10 (drop (10 * j) ?muts)) [0..<?k])) =
        map length (map (\<lambda>j. take 10 (drop (10 * j) ?muts)) [0..<?k])"
      by (simp add: comp_def)
    then have "map length (posts (snd ?r)) =
           replicate (length ?muts div 10) 10
             @ (if length ?muts mod 10 = 0 then [] else [length ?muts mod 10])"
      by (simp only: w(1) eq chunks_lengths [OF refl])
    ultimately show ?thesis using w retries by blast
  qed
  have one: "posts (snd (step en s e)) = []" if "pc s = AwaitPost" "e \<noteq> PostResolved"
    using that
    by (cases e)
       (auto simp: loop_defs row_defs channel_defs addTodo_def Let_def
             split: option.splits prod.splits list.splits if_splits)
  show ?thesis unfolding Let_def using loop one by blast
qed

theorem sync_loop_chunks_witness:
  "pc example_view = AwaitAnimationFrame \<and> length (localMutations example_view) = 23
   \<and> map length (posts (snd (run example_env example_view
          (AnimationFrame # replicate 3 PostResolved)))) = [10, 10, 3]
   \<and> concat (posts (snd (run example_env example_view
          (AnimationFrame # replicate 3 PostResolved)))) = map posted example_edits
   \<and> pc (example_view\<lparr>pc := AwaitPost\<rparr>) = AwaitPost
   \<and> posts (snd (step example_env (example_view\<lparr>pc := AwaitPost\<rparr>) PostRejected)) = []"
proof -
  have pcv: "pc example_view = AwaitAnimationFrame"
    by (simp add: example_view_def)
  have lm: "localMutations example_view = example_edits"
    by (simp add: example_view_def)
  have len: "length example_edits = 23"
    by (simp add: example_edits_def)
  have k: "((23::nat) + 9) div 10 = 3"
    "replicate ((23::nat) div 10) (10::nat) @ (if (23::nat) mod 10 = 0 then [] else [(23::nat) mod 10]) = [10, 10, 3]"
    by (simp_all add: numeral_2_eq_2)
  have "map length (posts (snd (run example_env example_view
          (AnimationFrame # replicate (((23::nat) + 9) div 10) PostResolved)))) =
            replicate ((23::nat) div 10) (10::nat) @ (if (23::nat) mod 10 = 0 then [] else [(23::nat) mod 10])
     \<and> concat (posts (snd (run example_env example_view
          (AnimationFrame # replicate (((23::nat) + 9) div 10) PostResolved)))) = map posted example_edits"
    using sync_loop_chunks [of example_view example_env "\<lambda>j. 0" PostRejected] pcv
    unfolding Let_def lm len by blast
  then have "map length (posts (snd (run example_env example_view
          (AnimationFrame # replicate 3 PostResolved)))) = [10, 10, 3]
     \<and> concat (posts (snd (run example_env example_view
          (AnimationFrame # replicate 3 PostResolved)))) = map posted example_edits"
    by (simp only: k)
  moreover have "posts (snd (step example_env (example_view\<lparr>pc := AwaitPost\<rparr>) PostRejected)) = []"
    using sync_loop_chunks [of "example_view\<lparr>pc := AwaitPost\<rparr>" example_env "\<lambda>j. 0" PostRejected]
    by simp
  ultimately show ?thesis using pcv lm len by (simp del: run.simps step.simps)
qed

subsection \<open>C3: a message after the channel was opened again\<close>

text \<open>
  Claim C3 holds of the source opened at mount (lemma \<open>snapshot_applied\<close>). It fails of
  the source the error listener opens: the listeners were added to the first
  \<^verbatim>\<open>EventSource\<close> object (lines 23 and 30), and line 34 assigns a new object to \<^verbatim>\<open>es\<close>
  without adding them. Here an item is added and drained, so that \<open>dirty\<close> and
  \<open>adding\<close> are set; the channel fails and is opened again; the snapshot \<open>''v2''\<close> then
  arrives on the new source, and nothing changes. The same snapshot on the first
  source, had it not failed, replaces the list and clears both flags.
\<close>

theorem message_after_reconnect_is_ignored:
  "(let s = fst (run example_env (fst (mount example_list))
            [TypeNewTask ''eggs'', ClickAdd, PauseTimer, AnimationFrame, EsError 0, BackoffTimer])
    in es s = 1 \<and> length (sources s) = 2 \<and> \<not> closed (sources s ! 1)
       \<and> data s = example_list \<and> dirty s \<and> adding s
       \<and> step example_env s (EsMessage 1 ''v2'') = (s, []))
   \<and> (let s = fst (run example_env (fst (mount example_list))
            [TypeNewTask ''eggs'', ClickAdd, PauseTimer, AnimationFrame, EsMessage 0 ''v2''])
      in data s = \<lparr>items = [example_item\<lparr>versionstamp := ''2''\<rparr>]\<rparr> \<and> \<not> dirty s \<and> \<not> adding s)"
  by (simp add: eval_defs Let_def)

subsection \<open>C4: a second failure of the channel\<close>

text \<open>
  Claim C4 holds of the first failure: the source is closed, a timer is started, and
  when it fires a new source is opened. It fails from the second failure on, for the
  reason given under C3: the new source has no error listener. Here the channel fails,
  is opened again and fails again: the second failure closes nothing, starts no timer
  and opens nothing, and no timer is left to fire.
\<close>

theorem second_failure_is_not_retried:
  "snd (run example_env (fst (mount example_list)) [EsError 0, BackoffTimer]) =
     [EventSource_close 0, SetTimeout (backoff_delay (1 / 2)), EventSource_new 1]
   \<and> (let s = fst (run example_env (fst (mount example_list)) [EsError 0, BackoffTimer])
      in es s = 1 \<and> \<not> closed (sources s ! 1) \<and> backoff_timers s = []
         \<and> step example_env s (EsError 1) = (s, [])
         \<and> step example_env s BackoffTimer = (s, []))
   \<and> snd (run example_env (fst (mount example_list))
        [EsError 0, BackoffTimer, EsError 1, BackoffTimer, EsError 1, EsError 0, BackoffTimer]) =
     [EventSource_close 0, SetTimeout (backoff_delay (1 / 2)), EventSource_new 1]"
  by (simp add: eval_defs Let_def)

subsection \<open>C5: who sets and who clears \<open>dirty\<close>\<close>

text \<open>
  Claim C5. When the sync loop wakes and takes a buffer that is not empty, \<open>dirty\<close>
  is true afterwards. No event other than a message of the live channel turns
  \<open>dirty\<close> from true to false, so no step of the sync loop does; when \<open>dirty\<close> does turn
  false, the event is a message on a source that dispatches to the message listener,
  with a payload that parses; and every such message leaves \<open>dirty\<close> false.
\<close>

theorem dirty_set_by_drain_cleared_by_snapshot:
  "(pc s = AwaitAnimationFrame \<and> localMutations s \<noteq> [] \<longrightarrow>
      dirty (fst (step en s AnimationFrame)))
   \<and> (dirty s \<and> \<not> is_message e \<longrightarrow> dirty (fst (step en s e)))
   \<and> (dirty s \<and> \<not> dirty (fst (step en s e)) \<longrightarrow>
        (\<exists>c d newData. e = EsMessage c d \<and> dispatches message_listener c s
           \<and> JSON_parse en d = Some newData))
   \<and> (dispatches message_listener c s \<and> JSON_parse en d = Some newData \<longrightarrow>
        \<not> dirty (fst (step en s (EsMessage c d))))"
proof -
  have "dirty (fst (step en s AnimationFrame))"
    if "pc s = AwaitAnimationFrame" "localMutations s \<noteq> []"
    using that by (simp add: loop_defs)
  moreover have "\<not> dirty (fst (step en s (EsMessage c d)))"
    if "dispatches message_listener c s" "JSON_parse en d = Some newData"
    using that by (simp add: on_message_def)
  ultimately show ?thesis
    using step_keeps_dirty [of e s en] dirty_cleared_by [of s en e] by blast
qed

theorem dirty_set_by_drain_cleared_by_snapshot_witness:
  "pc example_view = AwaitAnimationFrame \<and> localMutations example_view \<noteq> []
   \<and> dirty (fst (step example_env example_view AnimationFrame))
   \<and> dirty (example_view\<lparr>dirty := True\<rparr>) \<and> \<not> is_message PostResolved
   \<and> dirty (fst (step example_env (example_view\<lparr>dirty := True\<rparr>) PostResolved))
   \<and> dispatches message_listener 0 (example_view\<lparr>dirty := True\<rparr>)
   \<and> JSON_parse example_env ''v2'' = Some \<lparr>items = [example_item\<lparr>versionstamp := ''2''\<rparr>]\<rparr>
   \<and> \<not> dirty (fst (step example_env (example_view\<lparr>dirty := True\<rparr>) (EsMessage 0 ''v2'')))"
proof -
  have a: "pc example_view = AwaitAnimationFrame" "localMutations example_view \<noteq> []"
    by (simp_all add: example_view_def example_edits_def upt_conv_Cons)
  have b: "dispatches message_listener 0 (example_view\<lparr>dirty := True\<rparr>)"
    "JSON_parse example_env ''v2'' = Some \<lparr>items = [example_item\<lparr>versionstamp := ''2''\<rparr>]\<rparr>"
    by (simp_all add: example_view_def example_env_def dispatches_def mount_def loop_defs)
  have "dirty (fst (step example_env example_view AnimationFrame))"
    using dirty_set_by_drain_cleared_by_snapshot [of example_view example_env] a
    by (simp del: step.simps)
  moreover have "dirty (fst (step example_env (example_view\<lparr>dirty := True\<rparr>) PostResolved))"
    using dirty_set_by_drain_cleared_by_snapshot
      [of "example_view\<lparr>dirty := True\<rparr>" example_env PostResolved]
    by (simp del: step.simps)
  moreover have
    "\<not> dirty (fst (step example_env (example_view\<lparr>dirty := True\<rparr>) (EsMessage 0 ''v2'')))"
    using dirty_set_by_drain_cleared_by_snapshot
      [of "example_view\<lparr>dirty := True\<rparr>" example_env _ 0 "''v2''"] b
    by (simp del: step.simps)
  ultimately show ?thesis using a b by (simp del: step.simps)
qed

subsection \<open>C6: a failed post is retried, the same chunk, for ever\<close>

text \<open>
  Claim C6. While a post is outstanding, its failure starts a timer of 1000 ms and
  nothing else; when the timer fires the same chunk is posted again and the loop is
  back in the state it was in. So after any number \<open>n\<close> of failures in a row the loop
  has waited \<open>n\<close> times 1000 ms, has posted the same chunk \<open>n\<close> more times and is
  waiting for that post: no limit, no growth of the delay, no splitting. The index of
  the loop and the drained sequence change on no event but the success of the post,
  which moves the index on by ten.
\<close>

theorem failed_post_retries_same_chunk:
  "pc s = AwaitPost \<Longrightarrow>
     step en s PostRejected = (s\<lparr>pc := AwaitRetryTimer\<rparr>, [SetTimeout 1000])
     \<and> step en (s\<lparr>pc := AwaitRetryTimer\<rparr>) RetryTimer =
         (s, [Post (chunk_at (mutations s) (loop_i s))])
     \<and> run en s (concat (replicate n [PostRejected, RetryTimer])) =
         (s, concat (replicate n [SetTimeout 1000, Post (chunk_at (mutations s) (loop_i s))]))
     \<and> (e \<noteq> PostResolved \<longrightarrow>
          loop_i (fst (step en s e)) = loop_i s \<and> mutations (fst (step en s e)) = mutations s)
     \<and> loop_i (fst (step en (s\<lparr>pc := AwaitRetryTimer\<rparr>) e)) = loop_i s
     \<and> mutations (fst (step en (s\<lparr>pc := AwaitRetryTimer\<rparr>) e)) = mutations s
     \<and> loop_i (fst (step en s PostResolved)) = loop_i s + 10
     \<and> mutations (fst (step en s PostResolved)) = mutations s"
proof -
  assume pc: "pc s = AwaitPost"
  have stay: "loop_i (fst (step en s e)) = loop_i s \<and> mutations (fst (step en s e)) = mutations s"
    if "e \<noteq> PostResolved"
    using loop_position_changes [of en s e] pc that by auto
  have wait: "loop_i (fst (step en (s\<lparr>pc := AwaitRetryTimer\<rparr>) e)) = loop_i s
      \<and> mutations (fst (step en (s\<lparr>pc := AwaitRetryTimer\<rparr>) e)) = mutations s"
    using loop_position_changes [of en "s\<lparr>pc := AwaitRetryTimer\<rparr>" e] by auto
  have next_chunk: "loop_i (fst (step en s PostResolved)) = loop_i s + 10
      \<and> mutations (fst (step en s PostResolved)) = mutations s"
    using pc by (simp add: loop_defs chunkSize_def)
  show ?thesis
    using post_rejected_step [OF pc] retry_timer_step [OF pc] retry_rounds [OF pc] stay wait
      next_chunk
    by blast
qed

theorem failed_post_retries_same_chunk_witness:
  "pc (example_view\<lparr>pc := AwaitPost, mutations := example_edits\<rparr>) = AwaitPost
   \<and> run example_env (example_view\<lparr>pc := AwaitPost, mutations := example_edits\<rparr>)
        [PostRejected, RetryTimer, PostRejected, RetryTimer] =
       (example_view\<lparr>pc := AwaitPost, mutations := example_edits\<rparr>,
        [SetTimeout 1000, Post (chunk_at example_edits 0),
         SetTimeout 1000, Post (chunk_at example_edits 0)])
   \<and> loop_i (fst (step example_env (example_view\<lparr>pc := AwaitPost, mutations := example_edits\<rparr>)
        PostRejected)) = 0"
proof -
  let ?s = "example_view\<lparr>pc := AwaitPost, mutations := example_edits\<rparr>"
  have pcs: "pc ?s = AwaitPost" by simp
  have i: "loop_i ?s = 0" by (simp add: example_view_def mount_def loop_defs)
  have two: "concat (replicate 2 [PostRejected, RetryTimer]) =
      [PostRejected, RetryTimer, PostRejected, RetryTimer]"
    "concat (replicate 2 [SetTimeout 1000, Post (chunk_at example_edits 0)]) =
      [SetTimeout 1000, Post (chunk_at example_edits 0),
       SetTimeout 1000, Post (chunk_at example_edits 0)]"
    by (simp_all add: numeral_2_eq_2)
  note t = failed_post_retries_same_chunk [OF pcs, of example_env 2 PostRejected]
  have "run example_env ?s (concat (replicate 2 [PostRejected, RetryTimer])) =
      (?s, concat (replicate 2 [SetTimeout 1000, Post (chunk_at example_edits 0)]))"
    using t i by (simp del: run.simps step.simps)
  then have "run example_env ?s [PostRejected, RetryTimer, PostRejected, RetryTimer] =
      (?s, [SetTimeout 1000, Post (chunk_at example_edits 0),
         SetTimeout 1000, Post (chunk_at example_edits 0)])"
    by (simp only: two)
  moreover have "loop_i (fst (step example_env ?s PostRejected)) = 0"
    using t i by (simp del: run.simps step.simps)
  ultimately show ?thesis using pcs by (simp del: run.simps step.simps)
qed

subsection \<open>C7: the delay before the channel is opened again\<close>

text \<open>
  Claim C7 says the delay lies in \<open>[10000, 15000)\<close> for every draw in \<open>[0, 1)\<close>. In
  JavaScript's arithmetic that fails at the top. For the draw \<open>1 - 2 ^ -52\<close>
  (\<^verbatim>\<open>0.9999999999999998\<close>) and for the draw \<open>1 - 2 ^ -53\<close> (\<^verbatim>\<open>0.9999999999999999\<close>, the
  largest number below 1), both representable, the product \<open>r * 5000\<close> rounds to
  \<open>5000 - 2 ^ -40\<close>, and the sum \<open>10000 + (5000 - 2 ^ -40)\<close> lies halfway between two
  representable numbers and rounds to the even one, \<open>15000\<close>.
\<close>

theorem backoff_delay_counterexample:
  "double_round (1 - 1 / 2 ^ 52) = 1 - 1 / 2 ^ 52
   \<and> (0::rat) \<le> 1 - 1 / 2 ^ 52 \<and> (1 - 1 / 2 ^ 52 :: rat) < 1
   \<and> js_mul (1 - 1 / 2 ^ 52) 5000 = 5000 - 1 / 2 ^ 40
   \<and> backoff_delay (1 - 1 / 2 ^ 52) = 15000
   \<and> \<not> backoff_delay (1 - 1 / 2 ^ 52) < 15000
   \<and> double_round (1 - 1 / 2 ^ 53) = 1 - 1 / 2 ^ 53
   \<and> (0::rat) \<le> 1 - 1 / 2 ^ 53 \<and> (1 - 1 / 2 ^ 53 :: rat) < 1
   \<and> backoff_delay (1 - 1 / 2 ^ 53) = 15000
   \<and> \<not> backoff_delay (1 - 1 / 2 ^ 53) < 15000"
proof -
  have "backoff_delay (1 - 1 / 2 ^ 52) = 15000"
    by (simp only: backoff_delay_def mul_at_edge_52 add_at_edge)
  moreover have "backoff_delay (1 - 1 / 2 ^ 53) = 15000"
    by (simp only: backoff_delay_def mul_at_edge_53 add_at_edge)
  moreover have "js_mul (1 - 1 / 2 ^ 52) 5000 = 5000 - 1 / 2 ^ 40"
    by (simp only: mul_at_edge_52) simp
  ultimately show ?thesis using edge_53_is_double edge_52_is_double by simp
qed

text \<open>
  Claim C7 as amended. The delay is \<open>10000 + r * 5000\<close> in JavaScript's arithmetic, \<open>r\<close>
  the draw of \<^verbatim>\<open>Math.random\<close>, and for every draw in \<open>[0, 1)\<close> it lies in the closed
  interval \<open>[10000, 15000]\<close>. The error listener closes the source that \<^verbatim>\<open>es\<close> holds and
  starts a timer of that delay, and opens nothing; a new source is opened by no event
  but the firing of such a timer.
\<close>

theorem backoff_delay_in_closed_interval:
  "backoff_delay r = js_add 10000 (js_mul r 5000)
   \<and> (0 \<le> r \<and> r < 1 \<longrightarrow> 10000 \<le> backoff_delay r \<and> backoff_delay r \<le> 15000)
   \<and> (dispatches error_listener c s \<longrightarrow>
        snd (step en s (EsError c)) =
          [EventSource_close (es s), SetTimeout (backoff_delay (Math_random en (randomCalls s)))]
        \<and> backoff_timers (fst (step en s (EsError c))) =
             backoff_timers s @ [backoff_delay (Math_random en (randomCalls s))]
        \<and> length (sources (fst (step en s (EsError c)))) = length (sources s))
   \<and> (EventSource_new k \<in> set (snd (step en s e)) \<longrightarrow>
        e = BackoffTimer \<and> backoff_timers s \<noteq> [] \<and> k = length (sources s))"
proof -
  have opened: "e = BackoffTimer \<and> backoff_timers s \<noteq> [] \<and> k = length (sources s)"
    if "EventSource_new k \<in> set (snd (step en s e))"
    using that
    by (cases e)
       (auto simp: loop_defs row_defs channel_defs addTodo_def Let_def
             split: option.splits prod.splits list.splits if_splits)
  have listener: "snd (step en s (EsError c)) =
          [EventSource_close (es s), SetTimeout (backoff_delay (Math_random en (randomCalls s)))]
        \<and> backoff_timers (fst (step en s (EsError c))) =
             backoff_timers s @ [backoff_delay (Math_random en (randomCalls s))]
        \<and> length (sources (fst (step en s (EsError c)))) = length (sources s)"
    if "dispatches error_listener c s"
    using that by (simp add: on_error_def Let_def)
  show ?thesis
    using backoff_delay_bounds [of r] opened listener by (auto simp: backoff_delay_def)
qed

theorem backoff_delay_in_closed_interval_witness:
  "(0::rat) \<le> 1 / 2 \<and> (1 / 2 :: rat) < 1
   \<and> 10000 \<le> backoff_delay (1 / 2) \<and> backoff_delay (1 / 2) \<le> 15000
   \<and> dispatches error_listener 0 (fst (mount example_list))
   \<and> snd (step example_env (fst (mount example_list)) (EsError 0)) =
        [EventSource_close 0, SetTimeout (backoff_delay (1 / 2))]
   \<and> EventSource_new 1 \<in> set (snd (step example_env
        (fst (step example_env (fst (mount example_list)) (EsError 0))) BackoffTimer))
   \<and> backoff_timers (fst (step example_env (fst (mount example_list)) (EsError 0))) \<noteq> []"
proof -
  let ?s0 = "fst (mount example_list)"
  let ?s1 = "fst (step example_env ?s0 (EsError 0))"
  have d: "dispatches error_listener 0 ?s0" "es ?s0 = 0" "randomCalls ?s0 = 0"
    "Math_random example_env 0 = 1 / 2" "backoff_timers ?s0 = []" "length (sources ?s0) = 1"
    by (simp_all add: mount_def loop_defs dispatches_def example_env_def)
  have new: "EventSource_new 1 \<in> set (snd (step example_env ?s1 BackoffTimer))"
    using d by (simp add: on_error_def on_backoff_elapsed_def Let_def)
  have half: "(0::rat) \<le> 1 / 2 \<and> (1 / 2 :: rat) < 1" by simp
  have "10000 \<le> backoff_delay (1 / 2) \<and> backoff_delay (1 / 2) \<le> 15000"
    using backoff_delay_in_closed_interval [of "1 / 2" 0 ?s0 example_env 1 BackoffTimer] half
    by blast
  moreover have "snd (step example_env ?s0 (EsError 0)) =
        [EventSource_close 0, SetTimeout (backoff_delay (1 / 2))]"
    using backoff_delay_in_closed_interval [of _ 0 ?s0 example_env] d
    by (simp del: step.simps)
  moreover have "backoff_timers ?s1 \<noteq> []"
    using backoff_delay_in_closed_interval [of _ 0 ?s0 example_env 1 BackoffTimer] d
    by (simp del: step.simps)
  ultimately show ?thesis using d(1) new half by (simp del: step.simps)
qed

subsection \<open>C8: one pending edit per id, the last record as a whole\<close>

text \<open>
  Claim C8 says that a delete recorded for an item after a queued, unsent edit that set
  \<^verbatim>\<open>completed\<close> to true leaves the fields \<open>text = null\<close>, \<open>completed = true\<close>. The delete
  handler passes \<^verbatim>\<open>item.completed\<close> of the row as shown (line 156), not the value of the
  queued edit. Here the item \<open>x\<close> is shown as not completed; the checkbox queues
  \<open>completed = true\<close>; a snapshot with a new revision of \<open>x\<close>, still not completed,
  arrives before the loop wakes and mounts the row afresh; the delete then leaves
  \<open>text = null\<close>, \<open>completed = false\<close>.
\<close>

theorem delete_after_completed_edit_counterexample:
  "localMutations (fst (run example_env (fst (mount example_list))
      [ChangeCompleted ''x:1'' True]))
     = [(''x'', \<lparr>mut_text = Some ''milk'', mut_completed = True\<rparr>)]
   \<and> localMutations (fst (run example_env (fst (mount example_list))
      [ChangeCompleted ''x:1'' True, EsMessage 0 ''v2'', ClickDelete ''x:2'' True]))
     = [(''x'', \<lparr>mut_text = None, mut_completed = False\<rparr>)]"
  by (simp add: eval_defs Let_def)

text \<open>
  Claim C8 as amended. In every state the component reaches after mounting, the buffer
  has at most one entry per id. \<^verbatim>\<open>saveTodo\<close> leaves under the item's id exactly the two
  fields it was given, whatever was queued for that id before, and leaves the entries
  of other ids as they were. A confirmed delete on a row whose controls are enabled leaves
  exactly one entry for the row's id, with \<open>text = null\<close> and \<open>completed\<close> as the row
  shows it, whatever edit of that item was queued.
\<close>

theorem one_edit_per_id_last_record_wins:
  "distinct (map fst (localMutations (fst (run en (fst (mount d)) evs))))
   \<and> map_of (localMutations (saveTodo item t c s)) (item_id item)
       = Some \<lparr>mut_text = t, mut_completed = c\<rparr>
   \<and> (k \<noteq> item_id item \<longrightarrow>
        map_of (localMutations (saveTodo item t c s)) k = map_of (localMutations s) k)
   \<and> (map_of (rows s) key = Some r \<and> view_controls r \<and> distinct (map fst (localMutations s))
        \<longrightarrow> filter (\<lambda>p. fst p = item_id (row_item r))
              (localMutations (fst (step en s (ClickDelete key True))))
            = [(item_id (row_item r),
                \<lparr>mut_text = None, mut_completed = item_completed (row_item r)\<rparr>)])"
proof -
  have inv: "distinct (map fst (localMutations (fst (run en (fst (mount d)) evs))))"
    by (rule run_distinct_keys) (simp add: mount_buffer_empty)
  have del: "filter (\<lambda>p. fst p = item_id (row_item r))
              (localMutations (fst (step en s (ClickDelete key True))))
            = [(item_id (row_item r),
                \<lparr>mut_text = None, mut_completed = item_completed (row_item r)\<rparr>)]"
    if "map_of (rows s) key = Some r" "view_controls r" "distinct (map fst (localMutations s))"
    using that by (simp add: row_defs record_edit_def filter_Map_set)
  show ?thesis
    using inv del by (simp add: saveTodo_def record_edit_def map_of_Map_set)
qed

theorem one_edit_per_id_last_record_wins_witness:
  "map_of (rows (fst (run example_env (fst (mount example_list))
        [ChangeCompleted ''x:1'' True, EsMessage 0 ''v2'']))) ''x:2''
      = Some \<lparr>row_item = example_item\<lparr>versionstamp := ''2''\<rparr>, editing = False,
               row_busy = False, row_input = None\<rparr>
   \<and> distinct (map fst (localMutations (fst (run example_env (fst (mount example_list))
        [ChangeCompleted ''x:1'' True, EsMessage 0 ''v2'']))))
   \<and> filter (\<lambda>p. fst p = ''x'')
        (localMutations (fst (step example_env
           (fst (run example_env (fst (mount example_list))
              [ChangeCompleted ''x:1'' True, EsMessage 0 ''v2'']))
           (ClickDelete ''x:2'' True))))
      = [(''x'', \<lparr>mut_text = None, mut_completed = False\<rparr>)]
   \<and> map_of (localMutations (saveTodo example_item None True
        (fst (run example_env (fst (mount example_list))
           [ChangeCompleted ''x:1'' True, EsMessage 0 ''v2''])))) ''x''
      = Some \<lparr>mut_text = None, mut_completed = True\<rparr>
   \<and> map_of (localMutations (saveTodo example_item None True
        (fst (run example_env (fst (mount example_list))
           [ChangeCompleted ''x:1'' True, EsMessage 0 ''v2''])))) ''y''
      = map_of (localMutations (fst (run example_env (fst (mount example_list))
           [ChangeCompleted ''x:1'' True, EsMessage 0 ''v2'']))) ''y''"
proof -
  let ?s = "fst (run example_env (fst (mount example_list))
        [ChangeCompleted ''x:1'' True, EsMessage 0 ''v2''])"
  let ?r = "\<lparr>row_item = example_item\<lparr>versionstamp := ''2''\<rparr>, editing = False,
               row_busy = False, row_input = None\<rparr>"
  have row: "map_of (rows ?s) ''x:2'' = Some ?r"
    by (simp add: eval_defs Let_def)
  have ctl: "view_controls ?r" "item_id (row_item ?r) = ''x''"
    "item_completed (row_item ?r) = False" "item_id example_item = ''x''"
    "''y'' \<noteq> item_id example_item"
    by (simp_all add: view_controls_def example_item_def)
  note t = one_edit_per_id_last_record_wins [where en = example_env and d = example_list
      and evs = "[ChangeCompleted ''x:1'' True, EsMessage 0 ''v2'']" and item = example_item
      and t = None and c = True and s = ?s and k = "''y''" and key = "''x:2''" and r = ?r]
  have d: "distinct (map fst (localMutations ?s))" using t by blast
  have "filter (\<lambda>p. fst p = item_id (row_item ?r))
          (localMutations (fst (step example_env ?s (ClickDelete ''x:2'' True))))
      = [(item_id (row_item ?r),
          \<lparr>mut_text = None, mut_completed = item_completed (row_item ?r)\<rparr>)]"
    using t row ctl(1) d by blast
  then have del: "filter (\<lambda>p. fst p = ''x'')
          (localMutations (fst (step example_env ?s (ClickDelete ''x:2'' True))))
      = [(''x'', \<lparr>mut_text = None, mut_completed = False\<rparr>)]"
    by (simp only: ctl(2,3))
  have "map_of (localMutations (saveTodo example_item None True ?s)) (item_id example_item)
      = Some \<lparr>mut_text = None, mut_completed = True\<rparr>"
    using t by blast
  then have x: "map_of (localMutations (saveTodo example_item None True ?s)) ''x''
      = Some \<lparr>mut_text = None, mut_completed = True\<rparr>"
    by (simp only: ctl(4))
  have y: "map_of (localMutations (saveTodo example_item None True ?s)) ''y''
      = map_of (localMutations ?s) ''y''"
    using t ctl(5) by blast
  show ?thesis using row d del x y by blast
qed

subsection \<open>C9: busy until the next snapshot\<close>

text \<open>
  Claim C9. \<open>busy\<close> is \<open>hasLocalMutations\<close> or \<open>dirty\<close> (line 17). Once the sync loop
  has woken and taken a buffer that is not empty, \<open>busy\<close> holds after every sequence of
  events that has no message of the live channel in it, whatever the posts do; and
  when \<open>dirty\<close> holds, an event after which \<open>busy\<close> is false is such a message.
\<close>

theorem busy_until_snapshot:
  "busy s = (hasLocalMutations s \<or> dirty s)
   \<and> (pc s = AwaitAnimationFrame \<and> localMutations s \<noteq> [] \<and> (\<forall>e \<in> set evs. \<not> is_message e)
        \<longrightarrow> busy (fst (run en s (AnimationFrame # evs))))
   \<and> (dirty s \<and> \<not> busy (fst (step en s e)) \<longrightarrow> is_message e)"
proof -
  have after: "busy (fst (run en s (AnimationFrame # evs)))"
    if pc: "pc s = AwaitAnimationFrame" and buf: "localMutations s \<noteq> []"
      and evs: "\<forall>e \<in> set evs. \<not> is_message e"
  proof -
    have "dirty (fst (step en s AnimationFrame))"
      using pc buf by (simp add: loop_defs)
    from run_keeps_dirty [OF evs this, of en]
    have "dirty (fst (run en s (AnimationFrame # evs)))"
      by (simp add: split_beta del: step.simps)
    then show ?thesis by (simp add: busy_def)
  qed
  have off: "is_message e" if "dirty s" "\<not> busy (fst (step en s e))"
    using that step_keeps_dirty [of e s en] by (auto simp: busy_def)
  show ?thesis using after off by (auto simp: busy_def)
qed

theorem busy_until_snapshot_witness:
  "pc example_view = AwaitAnimationFrame \<and> localMutations example_view \<noteq> []
   \<and> busy (fst (run example_env example_view
        [AnimationFrame, PostRejected, RetryTimer, PostResolved, TypeNewTask ''eggs'', ClickAdd,
         PostResolved, EsError 0, PostResolved, PauseTimer, BackoffTimer, AnimationFrame,
         PostResolved, PauseTimer, AnimationFrame]))"
proof -
  have a: "pc example_view = AwaitAnimationFrame" "localMutations example_view \<noteq> []"
    by (simp_all add: example_view_def example_edits_def upt_conv_Cons)
  have b: "\<forall>e \<in> set [PostRejected, RetryTimer, PostResolved, TypeNewTask ''eggs'', ClickAdd,
         PostResolved, EsError 0, PostResolved, PauseTimer, BackoffTimer, AnimationFrame,
         PostResolved, PauseTimer, AnimationFrame]. \<not> is_message e"
    by simp
  show ?thesis
    using busy_until_snapshot [of example_view _ example_env] a b by blast
qed

subsection \<open>C10: adding nothing does nothing\<close>

text \<open>
  Claim C10. With the empty string in the input, \<^verbatim>\<open>addTodo\<close> returns the state it was
  given: the buffer, \<open>hasLocalMutations\<close>, \<open>adding\<close> and the count of
  \<^verbatim>\<open>generateItemId\<close> calls are unchanged, and so is everything else; a click on the
  add button then changes nothing and has no effect outside.
\<close>

theorem addTodo_empty_is_noop:
  "addTodoInput s = [] \<Longrightarrow>
     addTodo en s = s
     \<and> localMutations (addTodo en s) = localMutations s
     \<and> hasLocalMutations (addTodo en s) = hasLocalMutations s
     \<and> adding (addTodo en s) = adding s
     \<and> idCalls (addTodo en s) = idCalls s
     \<and> step en s ClickAdd = (s, [])"
  by (simp add: addTodo_def)

theorem addTodo_empty_is_noop_witness:
  "addTodoInput (fst (mount example_list)) = []
   \<and> addTodo example_env (fst (mount example_list)) = fst (mount example_list)
   \<and> idCalls (addTodo example_env (fst (mount example_list))) = 0
   \<and> step example_env (fst (mount example_list)) ClickAdd = (fst (mount example_list), [])"
proof -
  have a: "addTodoInput (fst (mount example_list)) = []" "idCalls (fst (mount example_list)) = 0"
    by (simp_all add: mount_def loop_defs)
  show ?thesis
    using addTodo_empty_is_noop [OF a(1), of example_env] a by (simp del: step.simps)
qed

end
